theory Spec2Isabelle
  imports Complex_Main "HOL-Library.Word"
begin

unbundle bit_operations_syntax

section \<open>Data model\<close>

text \<open>
  The program is the single Go file \<^verbatim>\<open>bitcoin-wallet-bruteforce-offline.go\<close>.
  Bytes and the 64-bit counters are machine words; a Go \<^verbatim>\<open>error\<close> is
  represented by its message.
\<close>

type_synonym byte = "8 word"
type_synonym uint64 = "64 word"
type_synonym err = string

subsection \<open>readAddresses\<close>

text \<open>
  \<^verbatim>\<open>os.Open(filePath)\<close> answers with an error or with a file. A
  \<^verbatim>\<open>bufio.Scanner\<close> over that file hands out the tokens
  \<^verbatim>\<open>scanner.Text()\<close> returns, one per line of the source, until
  \<^verbatim>\<open>scanner.Scan()\<close> is false; \<^verbatim>\<open>scanner.Err()\<close> then tells
  whether the scan stopped at the end of the input or at a read error. Both library
  calls are inputs of the model.
\<close>

record scanned_file =
  scan_lines :: "string list"
  scan_err :: "err option"

text \<open>The loop \<^verbatim>\<open>for scanner.Scan() { addresses[scanner.Text()] = true }\<close>.\<close>

fun scan_loop :: "string list \<Rightarrow> (string \<rightharpoonup> bool) \<Rightarrow> (string \<rightharpoonup> bool)" where
  "scan_loop [] addresses = addresses"
| "scan_loop (l # ls) addresses = scan_loop ls (addresses(l \<mapsto> True))"

definition readAddresses ::
  "(string \<Rightarrow> err + scanned_file) \<Rightarrow> string \<Rightarrow> err + (string \<rightharpoonup> bool)" where
  "readAddresses os_Open filePath =
     (case os_Open filePath of
        Inl e \<Rightarrow> Inl e
      | Inr file \<Rightarrow>
          (let addresses = scan_loop (scan_lines file) Map.empty in
           case scan_err file of
             Some e \<Rightarrow> Inl e
           | None \<Rightarrow> Inr addresses))"

text \<open>
  The membership test of the worker, \<^verbatim>\<open>_, exists := btcAddresses[publicAddress]\<close>:
  the comma-ok form reports whether the key is present.
\<close>

definition address_exists :: "(string \<rightharpoonup> bool) \<Rightarrow> string \<Rightarrow> bool" where
  "address_exists btcAddresses publicAddress = (btcAddresses publicAddress \<noteq> None)"

subsection \<open>The scratch-buffer pool and generateKeyAndAddress\<close>

text \<open>
  A byte slice is its visible elements and its capacity. \<^verbatim>\<open>bufferPool\<close> is a
  \<^verbatim>\<open>sync.Pool\<close> whose \<^verbatim>\<open>New\<close> makes an empty slice of capacity 128.
  The pool is modelled by the buffers it holds for reuse, taken and given back at the
  front (which of its buffers \<^verbatim>\<open>Get\<close> hands out is left open by the
  library); \<open>outstanding\<close> counts the buffers that \<^verbatim>\<open>Get\<close> handed
  out and \<^verbatim>\<open>Put\<close> has not yet received.
\<close>

record buffer =
  buf_data :: "byte list"
  buf_cap :: nat

definition bufferPool_New :: buffer where
  "bufferPool_New = \<lparr>buf_data = [], buf_cap = 128\<rparr>"

record pool =
  idle :: "buffer list"
  outstanding :: nat

definition pool_Get :: "pool \<Rightarrow> buffer \<times> pool" where
  "pool_Get p =
     (case idle p of
        [] \<Rightarrow> (bufferPool_New, p\<lparr>outstanding := outstanding p + 1\<rparr>)
      | b # bs \<Rightarrow> (b, p\<lparr>idle := bs, outstanding := outstanding p + 1\<rparr>))"

definition pool_Put :: "buffer \<Rightarrow> pool \<Rightarrow> pool" where
  "pool_Put b p = p\<lparr>idle := b # idle p, outstanding := outstanding p - 1\<rparr>"

text \<open>
  Go's \<^verbatim>\<open>append\<close>: the elements are added; the capacity stays when they fit
  and grows to hold them otherwise.
\<close>

definition append_bytes :: "buffer \<Rightarrow> byte list \<Rightarrow> buffer" where
  "append_bytes b xs =
     \<lparr>buf_data = buf_data b @ xs,
      buf_cap = max (buf_cap b) (length (buf_data b) + length xs)\<rparr>"

text \<open>
  The cryptographic library calls are parameters. A private key is represented by the
  32 bytes \<^verbatim>\<open>privateKey.Serialize()\<close> returns.
\<close>

record crypto =
  SerializeCompressed :: "byte list \<Rightarrow> byte list"
  Hash160 :: "byte list \<Rightarrow> byte list"
  Sum256 :: "byte list \<Rightarrow> byte list"
  base58_Encode :: "byte list \<Rightarrow> string"

text \<open>
  \<open>newPrivateKey\<close> is what \<^verbatim>\<open>btcec.NewPrivateKey()\<close> returned: an error
  or a key. The deferred \<^verbatim>\<open>bufferPool.Put(buf)\<close> has its argument evaluated at
  the \<^verbatim>\<open>defer\<close> statement (the slice of length 0) and runs when the function
  returns.
\<close>

definition generateKeyAndAddress ::
  "crypto \<Rightarrow> err + byte list \<Rightarrow> pool \<Rightarrow> (err + byte list \<times> string) \<times> pool" where
  "generateKeyAndAddress c newPrivateKey p =
     (case newPrivateKey of
        Inl e \<Rightarrow> (Inl e, p)
      | Inr privateKey \<Rightarrow>
          (let pubKeyBytes = SerializeCompressed c privateKey;
               hash160 = Hash160 c pubKeyBytes;
               (got, p1) = pool_Get p;
               buf0 = got\<lparr>buf_data := []\<rparr>;
               deferred = buf0;
               buf1 = append_bytes buf0 [0];
               buf2 = append_bytes buf1 hash160;
               h1 = Sum256 c (buf_data buf2);
               h2 = Sum256 c h1;
               buf3 = append_bytes buf2 (take 4 h2);
               address = base58_Encode c (buf_data buf3)
           in (Inr (privateKey, address), pool_Put deferred p1)))"

subsection \<open>The worker\<close>

record MatchResult =
  privateKey :: "byte list"
  address :: string

text \<open>Lines written with \<^verbatim>\<open>log.Printf\<close> and \<^verbatim>\<open>log.Fatalf\<close>.\<close>

datatype log_msg =
    GenerateFailed nat err
  | WriteFailed err
  | FatalInvalidThreads err
  | FatalThreadsTooSmall
  | FatalReadAddresses err
  | FatalOpenOutput err

text \<open>What the program prints on its standard output.\<close>

datatype console_msg =
    Usage
  | Banner nat int
  | Loading string
  | Loaded nat
  | MatchFound string
  | SavedToFile string string

text \<open>
  The state the goroutines share and the private counter of each worker, numbered by
  the worker's id. \<open>matchChan\<close> lists the records sent on the channel, in the
  order of the sends; a send waits while the channel holds 100 records, and when a
  send completes is not part of the model.
\<close>

record sys =
  counter :: uint64
  bufferPool :: pool
  localCounter :: "uint64 list"
  matchChan :: "MatchResult list"
  logged :: "log_msg list"
  printed :: "console_msg list"

definition updateInterval :: uint64 where
  "updateInterval = 10000"

text \<open>
  One iteration of the loop of the worker with id \<open>wid\<close>: the call of the
  generator; on failure the log line and \<^verbatim>\<open>continue\<close>; otherwise the
  private counter, the batch added to the shared counter when the private counter
  reaches \<open>updateInterval\<close>, the membership test and, on a hit, the send.
\<close>

definition worker_iter ::
  "crypto \<Rightarrow> (string \<rightharpoonup> bool) \<Rightarrow> nat \<Rightarrow> err + byte list \<Rightarrow> sys \<Rightarrow> sys" where
  "worker_iter c btcAddresses wid newPrivateKey s =
     (case generateKeyAndAddress c newPrivateKey (bufferPool s) of
        (Inl e, p) \<Rightarrow> s\<lparr>bufferPool := p, logged := logged s @ [GenerateFailed wid e]\<rparr>
      | (Inr (key, publicAddress), p) \<Rightarrow>
          (let incremented = (localCounter s ! wid) + 1;
               s1 = (if incremented mod updateInterval = 0
                     then s\<lparr>bufferPool := p,
                            counter := counter s + updateInterval,
                            localCounter := (localCounter s)[wid := 0]\<rparr>
                     else s\<lparr>bufferPool := p,
                            localCounter := (localCounter s)[wid := incremented]\<rparr>)
           in if address_exists btcAddresses publicAddress
              then s1\<lparr>printed := printed s1 @ [MatchFound publicAddress],
                      matchChan := matchChan s1 @
                        [\<lparr>privateKey = key, address = publicAddress\<rparr>]\<rparr>
              else s1))"

text \<open>
  A run of the worker pool is the sequence of loop iterations the workers complete,
  each with the id of its worker and the key generator's answer. The shared counter is
  only touched by the atomic add, so the iterations are taken one after another; the
  states of the model are those between iterations.
\<close>

type_synonym iteration = "nat \<times> (err + byte list)"

definition sys_step :: "crypto \<Rightarrow> (string \<rightharpoonup> bool) \<Rightarrow> iteration \<Rightarrow> sys \<Rightarrow> sys" where
  "sys_step c btcAddresses it s =
     (if fst it < length (localCounter s)
      then worker_iter c btcAddresses (fst it) (snd it) s
      else s)"

definition run_workers ::
  "crypto \<Rightarrow> (string \<rightharpoonup> bool) \<Rightarrow> iteration list \<Rightarrow> sys \<Rightarrow> sys" where
  "run_workers c btcAddresses its s = fold (sys_step c btcAddresses) its s"

text \<open>The state main sets up for \<open>numThreads\<close> workers.\<close>

definition init_sys :: "nat \<Rightarrow> sys" where
  "init_sys numThreads =
     \<lparr>counter = 0,
      bufferPool = \<lparr>idle = [], outstanding = 0\<rparr>,
      localCounter = replicate numThreads 0,
      matchChan = [],
      logged = [],
      printed = []\<rparr>"

text \<open>The number of iterations of worker \<open>wid\<close> in which the generator succeeded.\<close>

definition successes :: "nat \<Rightarrow> iteration list \<Rightarrow> nat" where
  "successes wid its = length (filter (\<lambda>it. fst it = wid \<and> isl (snd it) = False) its)"

definition total_successes :: "nat \<Rightarrow> iteration list \<Rightarrow> nat" where
  "total_successes numThreads its = (\<Sum>wid < numThreads. successes wid its)"

text \<open>
  What a worker with \<open>k\<close> successful iterations has added to the shared counter
  when every full batch of 10000 is added once, and the sum of that over the workers.
\<close>

definition credited :: "nat \<Rightarrow> nat" where
  "credited k = 10000 * (k div 10000)"

definition credited_total :: "nat \<Rightarrow> iteration list \<Rightarrow> nat" where
  "credited_total numThreads its = (\<Sum>wid < numThreads. credited (successes wid its))"

subsubsection \<open>The two parts of an iteration\<close>

text \<open>
  Another goroutine can read the shared counter while a worker is inside an iteration.
  The only write to the counter is the \<^verbatim>\<open>atomic.AddUint64\<close> of the batch
  check, so a read sees the counter either as it was when the generator returned or as
  the batch check left it. The iteration is therefore cut where
  \<^verbatim>\<open>generateKeyAndAddress\<close> returns: \<open>worker_generate\<close> is the call with the
  log line and \<^verbatim>\<open>continue\<close> of a failure, and answers \<open>None\<close> then
  and the generated key and address otherwise; \<open>worker_count_and_match\<close> is the rest
  of the loop body, from \<^verbatim>\<open>localCounter++\<close> to the send.
\<close>

definition worker_generate ::
  "crypto \<Rightarrow> nat \<Rightarrow> err + byte list \<Rightarrow> sys \<Rightarrow> (byte list \<times> string) option \<times> sys" where
  "worker_generate c wid newPrivateKey s =
     (case generateKeyAndAddress c newPrivateKey (bufferPool s) of
        (Inl e, p) \<Rightarrow>
          (None, s\<lparr>bufferPool := p, logged := logged s @ [GenerateFailed wid e]\<rparr>)
      | (Inr generated, p) \<Rightarrow> (Some generated, s\<lparr>bufferPool := p\<rparr>))"

definition worker_count_and_match ::
  "(string \<rightharpoonup> bool) \<Rightarrow> nat \<Rightarrow> byte list \<times> string \<Rightarrow> sys \<Rightarrow> sys" where
  "worker_count_and_match btcAddresses wid generated s =
     (let incremented = (localCounter s ! wid) + 1;
          s1 = (if incremented mod updateInterval = 0
                then s\<lparr>counter := counter s + updateInterval,
                       localCounter := (localCounter s)[wid := 0]\<rparr>
                else s\<lparr>localCounter := (localCounter s)[wid := incremented]\<rparr>)
      in if address_exists btcAddresses (snd generated)
         then s1\<lparr>printed := printed s1 @ [MatchFound (snd generated)],
                 matchChan := matchChan s1 @
                   [\<lparr>privateKey = fst generated, address = snd generated\<rparr>]\<rparr>
         else s1)"

text \<open>
  The workers interleave at these cuts. \<open>Generate wid r\<close> is worker \<open>wid\<close>
  calling the generator, whose key source answers \<open>r\<close>; \<open>Finish wid\<close> is the
  same worker running the rest of its loop body. Besides the shared state, a state
  holds for every worker the key and address it has generated and not yet counted
  (\<open>pending\<close>, \<open>None\<close> at the top of the loop) and the number of generator
  calls of that worker that have returned without error (\<open>returned\<close>, which the
  program does not store). A worker at the top of its loop can only generate and one
  holding a key can only finish; an action out of turn, or of a worker that does not
  exist, leaves the state as it is.
\<close>

datatype action = Generate nat "err + byte list" | Finish nat

record workers =
  shared :: sys
  pending :: "(byte list \<times> string) option list"
  returned :: "nat list"

definition act_step ::
  "crypto \<Rightarrow> (string \<rightharpoonup> bool) \<Rightarrow> action \<Rightarrow> workers \<Rightarrow> workers" where
  "act_step c btcAddresses a f =
     (case a of
        Generate wid newPrivateKey \<Rightarrow>
          if wid < length (pending f) \<and> pending f ! wid = None
          then (case worker_generate c wid newPrivateKey (shared f) of
                  (result, s) \<Rightarrow>
                    f\<lparr>shared := s,
                      pending := (pending f)[wid := result],
                      returned := (returned f)
                        [wid := returned f ! wid + (if result = None then 0 else 1)]\<rparr>)
          else f
      | Finish wid \<Rightarrow>
          if wid < length (pending f)
          then (case pending f ! wid of
                  None \<Rightarrow> f
                | Some generated \<Rightarrow>
                    f\<lparr>shared := worker_count_and_match btcAddresses wid generated (shared f),
                      pending := (pending f)[wid := None]\<rparr>)
          else f)"

definition run_actions ::
  "crypto \<Rightarrow> (string \<rightharpoonup> bool) \<Rightarrow> action list \<Rightarrow> workers \<Rightarrow> workers" where
  "run_actions c btcAddresses acts f = fold (act_step c btcAddresses) acts f"

definition init_workers :: "nat \<Rightarrow> workers" where
  "init_workers numThreads =
     \<lparr>shared = init_sys numThreads,
      pending = replicate numThreads None,
      returned = replicate numThreads 0\<rparr>"

text \<open>The number of generator calls that have returned without error, over all workers.\<close>

definition total_returned :: "nat \<Rightarrow> workers \<Rightarrow> nat" where
  "total_returned numThreads f = (\<Sum>wid < numThreads. returned f ! wid)"

text \<open>
  The number of its calls that worker \<open>wid\<close> has taken through the batch check: all
  that have returned, but for the one whose key it still holds.
\<close>

definition carried :: "workers \<Rightarrow> nat \<Rightarrow> nat" where
  "carried f wid =
     (if pending f ! wid = None then returned f ! wid else returned f ! wid - 1)"

text \<open>The lists of a state have one entry for each of the \<open>n\<close> workers.\<close>

definition shaped :: "nat \<Rightarrow> workers \<Rightarrow> bool" where
  "shaped n f \<longleftrightarrow>
     length (localCounter (shared f)) = n \<and> length (pending f) = n \<and> length (returned f) = n"

text \<open>Iterations that run without a break, as the two actions of each.\<close>

definition whole_iterations :: "iteration list \<Rightarrow> action list" where
  "whole_iterations its = concat (map (\<lambda>it. [Generate (fst it) (snd it), Finish (fst it)]) its)"

subsection \<open>matchWriter\<close>

text \<open>
  \<^verbatim>\<open>hex.EncodeToString\<close>: two characters of
  \<^verbatim>\<open>0123456789abcdef\<close> for every byte, the high four bits first.
\<close>

definition hextable :: string where
  "hextable = ''0123456789abcdef''"

definition hex_byte :: "byte \<Rightarrow> string" where
  "hex_byte v = [hextable ! unat (drop_bit 4 v), hextable ! unat (v AND 0x0f)]"

definition hex_EncodeToString :: "byte list \<Rightarrow> string" where
  "hex_EncodeToString src = concat (map hex_byte src)"

text \<open>\<^verbatim>\<open>fmt.Sprintf("%s:%s\n", privKeyHex, match.address)\<close>\<close>

definition match_line :: "MatchResult \<Rightarrow> string" where
  "match_line m = hex_EncodeToString (privateKey m) @ '':'' @ address m @ ''\<newline>''"

text \<open>
  The output file and the \<^verbatim>\<open>bufio.Writer\<close> on it. \<open>file_content\<close> is
  what the destination holds, \<open>buffered\<close> what the writer has accepted and not
  yet written. The file is opened with \<^verbatim>\<open>O_APPEND\<close>, so every write goes to
  its end. A call of the library succeeds, or fails after some number of bytes went
  through; which of the two is an input of the model.
\<close>

datatype io_res = IoOk | IoErr nat err

record writer_state =
  file_content :: string
  buffered :: string
  wlogged :: "log_msg list"
  wprinted :: "console_msg list"

definition writer_WriteString :: "io_res \<Rightarrow> string \<Rightarrow> writer_state \<Rightarrow> writer_state \<times> err option" where
  "writer_WriteString r str w =
     (case r of
        IoOk \<Rightarrow> (w\<lparr>buffered := buffered w @ str\<rparr>, None)
      | IoErr n e \<Rightarrow> (w\<lparr>buffered := buffered w @ take n str\<rparr>, Some e))"

definition writer_Flush :: "io_res \<Rightarrow> writer_state \<Rightarrow> writer_state \<times> err option" where
  "writer_Flush r w =
     (case r of
        IoOk \<Rightarrow> (w\<lparr>file_content := file_content w @ buffered w, buffered := []\<rparr>, None)
      | IoErr n e \<Rightarrow>
          (w\<lparr>file_content := file_content w @ take n (buffered w),
             buffered := drop n (buffered w)\<rparr>, Some e))"

text \<open>
  A record taken from the channel, with the answers of \<^verbatim>\<open>WriteString\<close> and
  of \<^verbatim>\<open>Flush\<close> for it.
\<close>

record received =
  rec_match :: MatchResult
  rec_write :: io_res
  rec_flush :: io_res

text \<open>
  The body of \<^verbatim>\<open>for match := range matchChan\<close>. The error of
  \<^verbatim>\<open>WriteString\<close> is logged; the value \<^verbatim>\<open>writer.Flush()\<close> returns
  is dropped, as in the source.
\<close>

definition write_match :: "received \<Rightarrow> writer_state \<Rightarrow> writer_state" where
  "write_match r w =
     (let privKeyHex = hex_EncodeToString (privateKey (rec_match r));
          (w1, werr) = writer_WriteString (rec_write r) (match_line (rec_match r)) w;
          w2 = (case werr of
                  Some e \<Rightarrow> w1\<lparr>wlogged := wlogged w1 @ [WriteFailed e]\<rparr>
                | None \<Rightarrow> w1);
          (w3, _) = writer_Flush (rec_flush r) w2
      in w3\<lparr>wprinted := wprinted w3 @ [SavedToFile privKeyHex (address (rec_match r))]\<rparr>)"

definition writer_loop :: "received list \<Rightarrow> writer_state \<Rightarrow> writer_state" where
  "writer_loop rs w = fold write_match rs w"

text \<open>
  \<^verbatim>\<open>log.Fatalf\<close> prints its line and ends the process with exit code 1.
  \<open>opened\<close> is the answer of
  \<^verbatim>\<open>os.OpenFile(outputFile, O_APPEND|O_CREATE|O_WRONLY, 0644)\<close>: an error, or
  the file with the content it has (none when it was created). \<open>rs\<close> are the
  records received until the channel is closed; the deferred
  \<^verbatim>\<open>writer.Flush()\<close> runs then, with the answer \<open>final\<close>.
\<close>

datatype writer_exit =
    WriterFatal nat log_msg
  | WriterReturned writer_state

definition matchWriter :: "err + string \<Rightarrow> received list \<Rightarrow> io_res \<Rightarrow> writer_exit" where
  "matchWriter opened rs final =
     (case opened of
        Inl e \<Rightarrow> WriterFatal 1 (FatalOpenOutput e)
      | Inr existing \<Rightarrow>
          (let w0 = \<lparr>file_content = existing, buffered = [], wlogged = [], wprinted = []\<rparr>;
               w1 = writer_loop rs w0
           in WriterReturned (fst (writer_Flush final w1))))"

subsection \<open>statsReporter\<close>

text \<open>
  Times are nanoseconds on the monotonic clock. The rates are \<^verbatim>\<open>float64\<close>
  values. A finite \<^verbatim>\<open>float64\<close> is modelled by the real number it stands for,
  and the arithmetic of the type is left to two functions of the language and its
  library, which the model takes as given: \<open>nearest\<close> is the rounding of a real
  number to \<^verbatim>\<open>float64\<close>, applied by the conversion
  \<^verbatim>\<open>float64(total)\<close> and by the division, and \<open>Seconds\<close> is
  \<^verbatim>\<open>Duration.Seconds()\<close>, the seconds in a number of nanoseconds as a
  \<^verbatim>\<open>float64\<close>. The quotients of a run lie far inside the range of the type,
  so that rounding gives a finite value; a division by zero gives an infinity or NaN.
\<close>

record float64_lib =
  nearest :: "real \<Rightarrow> real"
  Seconds :: "int \<Rightarrow> real"

datatype fval = Finite real | PosInf | NegInf | NaN

definition float_div :: "float64_lib \<Rightarrow> real \<Rightarrow> real \<Rightarrow> fval" where
  "float_div L x y =
     (if y = 0 then (if x = 0 then NaN else if 0 < x then PosInf else NegInf)
      else Finite (nearest L (x / y)))"


text \<open>
  What one tick reads: the counter (\<^verbatim>\<open>atomic.LoadUint64\<close>), the clock at
  \<^verbatim>\<open>time.Now()\<close> and the clock at \<^verbatim>\<open>time.Since(startTime)\<close>.
\<close>

record tick =
  tick_total :: uint64
  tick_now :: int
  tick_since :: int

record stats_state =
  lastTotal :: uint64
  lastTime :: int

text \<open>The four values handed to \<^verbatim>\<open>fmt.Printf\<close> for the statistics line.\<close>

record stats_line =
  st_total :: uint64
  st_overall :: fval
  st_instant :: fval
  st_elapsed :: real

definition stats_tick ::
  "float64_lib \<Rightarrow> int \<Rightarrow> tick \<Rightarrow> stats_state \<Rightarrow> stats_line \<times> stats_state" where
  "stats_tick L startTime t st =
     (let total = tick_total t;
          now = tick_now t;
          elapsed = Seconds L (tick_since t - startTime);
          overallRate = float_div L (nearest L (real (unat total))) elapsed;
          intervalKeys = total - lastTotal st;
          intervalTime = Seconds L (now - lastTime st);
          instantRate = float_div L (nearest L (real (unat intervalKeys))) intervalTime
      in (\<lparr>st_total = total, st_overall = overallRate, st_instant = instantRate,
            st_elapsed = elapsed\<rparr>,
          \<lparr>lastTotal = total, lastTime = now\<rparr>))"

fun stats_loop ::
  "float64_lib \<Rightarrow> int \<Rightarrow> tick list \<Rightarrow> stats_state \<Rightarrow> stats_line list" where
  "stats_loop L startTime [] st = []"
| "stats_loop L startTime (t # ts) st =
     (case stats_tick L startTime t st of
        (line, st') \<Rightarrow> line # stats_loop L startTime ts st')"


subsection \<open>main\<close>

text \<open>
  The environment of the start-up: \<^verbatim>\<open>strconv.Atoi\<close>,
  \<^verbatim>\<open>os.Open\<close> with the scan that follows, and
  \<^verbatim>\<open>runtime.NumCPU\<close>. \<open>args\<close> is \<^verbatim>\<open>os.Args\<close>, the program
  name first.
\<close>

record environment =
  Atoi :: "string \<Rightarrow> err + int"
  os_Open :: "string \<Rightarrow> err + scanned_file"
  NumCPU :: nat

datatype startup =
    Exit nat "console_msg list" "log_msg list"
  | Started int string "string \<rightharpoonup> bool" "console_msg list"

definition main_startup :: "environment \<Rightarrow> string list \<Rightarrow> startup" where
  "main_startup env args =
     (if length args \<noteq> 4 then Exit 1 [Usage] []
      else
        (case Atoi env (args ! 1) of
           Inl e \<Rightarrow> Exit 1 [] [FatalInvalidThreads e]
         | Inr numThreads \<Rightarrow>
             if numThreads < 1 then Exit 1 [] [FatalThreadsTooSmall]
             else
               (let banner = [Banner (NumCPU env) numThreads];
                    outputFile = args ! 2;
                    btcAddressesFile = args ! 3;
                    loading = banner @ [Loading btcAddressesFile]
                in case readAddresses (os_Open env) btcAddressesFile of
                     Inl e \<Rightarrow> Exit 1 loading [FatalReadAddresses e]
                   | Inr btcAddresses \<Rightarrow>
                       Started numThreads outputFile btcAddresses
                         (loading @ [Loaded (card (dom btcAddresses))]))))"

section \<open>Loading the membership list\<close>

lemma scan_loop_eq:
  "scan_loop ls m = (\<lambda>a. if a \<in> set ls then Some True else m a)"
  by (induction ls arbitrary: m) (auto simp: fun_eq_iff)

lemma dom_scan_loop: "dom (scan_loop ls Map.empty) = set ls"
  by (auto simp: scan_loop_eq dom_def)

text \<open>
  Claim C5. When the source can be opened and scanned to its end, \<open>readAddresses\<close>
  returns the set of the distinct lines: a string is a key exactly when it is one of
  the lines, whatever their order and however often a line occurs, so the number of
  keys is the number of distinct lines; and the membership test of the worker holds
  for exactly the strings equal to a line, character by character.
\<close>

theorem readAddresses_distinct_lines:
  assumes "opn p = Inr f" and "scan_err f = None"
  shows "\<exists>m. readAddresses opn p = Inr m
           \<and> m = (\<lambda>a. if a \<in> set (scan_lines f) then Some True else None)
           \<and> dom m = set (scan_lines f)
           \<and> card (dom m) = length (remdups (scan_lines f))
           \<and> (\<forall>a. address_exists m a \<longleftrightarrow> a \<in> set (scan_lines f))"
proof -
  let ?m = "scan_loop (scan_lines f) Map.empty"
  have r: "readAddresses opn p = Inr ?m"
    using assms by (simp add: readAddresses_def)
  have e: "?m = (\<lambda>a. if a \<in> set (scan_lines f) then Some True else None)"
    by (simp add: scan_loop_eq)
  have d: "dom ?m = set (scan_lines f)"
    by (rule dom_scan_loop)
  have c: "card (dom ?m) = length (remdups (scan_lines f))"
    by (simp add: d length_remdups_card_conv)
  have x: "\<forall>a. address_exists ?m a \<longleftrightarrow> a \<in> set (scan_lines f)"
    by (auto simp: address_exists_def scan_loop_eq)
  from r e d c x show ?thesis by blast
qed

text \<open>
  A source with the lines \<open>1abc\<close>, \<open>1xyz\<close>, \<open>1abc\<close> loads as a set of two
  entries; \<open>1ABC\<close> is not a member.
\<close>

theorem readAddresses_distinct_lines_witness:
  "\<exists>m. readAddresses
          (\<lambda>p. Inr \<lparr>scan_lines = [''1abc'', ''1xyz'', ''1abc''], scan_err = None\<rparr>)
          ''addresses.txt'' = Inr m
       \<and> card (dom m) = 2
       \<and> address_exists m ''1abc'' \<and> address_exists m ''1xyz''
       \<and> \<not> address_exists m ''1ABC''"
proof -
  let ?f = "\<lparr>scan_lines = [''1abc'', ''1xyz'', ''1abc''], scan_err = None\<rparr>"
  let ?o = "\<lambda>p :: string. (Inr ?f :: err + scanned_file)"
  have "\<exists>m. readAddresses ?o ''addresses.txt'' = Inr m
           \<and> m = (\<lambda>a. if a \<in> set (scan_lines ?f) then Some True else None)
           \<and> dom m = set (scan_lines ?f)
           \<and> card (dom m) = length (remdups (scan_lines ?f))
           \<and> (\<forall>a. address_exists m a \<longleftrightarrow> a \<in> set (scan_lines ?f))"
    by (rule readAddresses_distinct_lines [of ?o "''addresses.txt''" ?f]) simp_all
  then obtain m where m: "readAddresses ?o ''addresses.txt'' = Inr m"
    and c: "card (dom m) = length (remdups (scan_lines ?f))"
    and x: "\<forall>a. address_exists m a \<longleftrightarrow> a \<in> set (scan_lines ?f)"
    by blast
  from c have c2: "card (dom m) = 2" by simp
  from x have "address_exists m ''1abc''" "address_exists m ''1xyz''"
    "\<not> address_exists m ''1ABC''"
    by simp_all
  with m c2 show ?thesis by blast
qed

section \<open>The scratch buffer\<close>

lemma generate_fail: "generateKeyAndAddress c (Inl e) p = (Inl e, p)"
  by (simp add: generateKeyAndAddress_def)

lemma generate_ok_fst:
  "\<exists>a. fst (generateKeyAndAddress c (Inr k) p) = Inr (k, a)"
  by (simp add: generateKeyAndAddress_def Let_def split: prod.splits)

lemma generate_ok_pool:
  "snd (generateKeyAndAddress c (Inr k) p) =
     pool_Put ((fst (pool_Get p))\<lparr>buf_data := []\<rparr>) (snd (pool_Get p))"
  by (simp add: generateKeyAndAddress_def Let_def split: prod.splits)

lemma outstanding_Get: "outstanding (snd (pool_Get p)) = outstanding p + 1"
  by (simp add: pool_Get_def split: list.splits)

lemma outstanding_Put: "outstanding (pool_Put b p) = outstanding p - 1"
  by (simp add: pool_Put_def)

lemma generate_outstanding:
  "outstanding (snd (generateKeyAndAddress c r p)) = outstanding p"
  by (cases r) (simp_all add: generate_fail generate_ok_pool outstanding_Get outstanding_Put)

lemma worker_iter_fail:
  "worker_iter c A i (Inl e) s = s\<lparr>logged := logged s @ [GenerateFailed i e]\<rparr>"
  by (simp add: worker_iter_def generate_fail)

lemma worker_iter_pool:
  "bufferPool (worker_iter c A i r s) = snd (generateKeyAndAddress c r (bufferPool s))"
  by (cases r)
     (auto simp: worker_iter_def generate_fail Let_def split: prod.splits sum.splits)

lemma sys_step_outstanding:
  "outstanding (bufferPool (sys_step c A it s)) = outstanding (bufferPool s)"
  by (simp add: sys_step_def worker_iter_pool generate_outstanding)

lemma run_workers_snoc:
  "run_workers c A (its @ [it]) s = sys_step c A it (run_workers c A its s)"
  by (simp add: run_workers_def)

lemma run_workers_append:
  "run_workers c A (its @ its') s = run_workers c A its' (run_workers c A its s)"
  by (simp add: run_workers_def)

lemma run_workers_outstanding:
  "outstanding (bufferPool (run_workers c A its s)) = outstanding (bufferPool s)"
  by (induction its rule: rev_induct)
     (simp_all add: run_workers_snoc sys_step_outstanding, simp add: run_workers_def)

text \<open>
  Claim C9. A call of \<open>generateKeyAndAddress\<close> leaves the number of buffers that
  are out of the pool as it found it, on the failing path as on the other. When the key
  generator fails the function returns before it takes a buffer, and the pool is
  untouched. When it succeeds, the buffer it took is, cut to length 0, at the front of
  the pool again when the function returns; the result holds the key and the address
  only. So between the iterations of the workers no buffer is ever out of the pool.
\<close>

theorem scratch_buffer_returned:
  "outstanding (snd (generateKeyAndAddress c r p)) = outstanding p
   \<and> generateKeyAndAddress c (Inl e) p = (Inl e, p)
   \<and> idle (snd (generateKeyAndAddress c (Inr k) p)) =
       (fst (pool_Get p))\<lparr>buf_data := []\<rparr> # idle (snd (pool_Get p))
   \<and> outstanding (bufferPool (run_workers c A its (init_sys n))) = 0"
proof -
  have "outstanding (bufferPool (run_workers c A its (init_sys n))) = 0"
    by (simp add: run_workers_outstanding init_sys_def)
  then show ?thesis
    by (simp add: generate_outstanding generate_fail generate_ok_pool pool_Put_def)
qed

theorem scratch_buffer_returned_witness:
  "generateKeyAndAddress
     \<lparr>SerializeCompressed = id, Hash160 = id, Sum256 = id, base58_Encode = (\<lambda>b. ''1'')\<rparr>
     (Inl ''rng'') \<lparr>idle = [], outstanding = 0\<rparr>
     = (Inl ''rng'', \<lparr>idle = [], outstanding = 0\<rparr>)
   \<and> idle (snd (generateKeyAndAddress
       \<lparr>SerializeCompressed = id, Hash160 = id, Sum256 = id, base58_Encode = (\<lambda>b. ''1'')\<rparr>
       (Inr [1, 2]) \<lparr>idle = [], outstanding = 0\<rparr>))
     = [\<lparr>buf_data = [], buf_cap = 128\<rparr>]
   \<and> outstanding (snd (generateKeyAndAddress
       \<lparr>SerializeCompressed = id, Hash160 = id, Sum256 = id, base58_Encode = (\<lambda>b. ''1'')\<rparr>
       (Inr [1, 2]) \<lparr>idle = [], outstanding = 0\<rparr>))
     = 0"
  using scratch_buffer_returned
    [of "\<lparr>SerializeCompressed = id, Hash160 = id, Sum256 = id, base58_Encode = (\<lambda>b. ''1'')\<rparr>"
        "Inr [1, 2]" "\<lparr>idle = [], outstanding = 0\<rparr>" "''rng''" "[1, 2]" Map.empty "[]" 0]
  by (simp add: pool_Get_def bufferPool_New_def)

section \<open>The counters of the workers\<close>

lemma generate_ok_cases:
  obtains a p' where "generateKeyAndAddress c (Inr k) p = (Inr (k, a), p')"
  using generate_ok_fst [of c k p] by (cases "generateKeyAndAddress c (Inr k) p") auto

lemma worker_iter_ok_counter:
  "counter (worker_iter c A i (Inr k) s) =
     (if (localCounter s ! i + 1) mod updateInterval = 0
      then counter s + updateInterval else counter s)"
proof -
  obtain a p' where g: "generateKeyAndAddress c (Inr k) (bufferPool s) = (Inr (k, a), p')"
    by (rule generate_ok_cases)
  show ?thesis by (simp add: worker_iter_def g Let_def)
qed

lemma worker_iter_ok_local:
  "localCounter (worker_iter c A i (Inr k) s) =
     (localCounter s)[i := (if (localCounter s ! i + 1) mod updateInterval = 0
                            then 0 else localCounter s ! i + 1)]"
proof -
  obtain a p' where g: "generateKeyAndAddress c (Inr k) (bufferPool s) = (Inr (k, a), p')"
    by (rule generate_ok_cases)
  show ?thesis by (simp add: worker_iter_def g Let_def)
qed

lemma successes_Nil: "successes i [] = 0"
  by (simp add: successes_def)

lemma successes_snoc:
  "successes j (its @ [it]) =
     successes j its + (if fst it = j \<and> \<not> isl (snd it) then 1 else 0)"
  by (simp add: successes_def)

lemma successes_append:
  "successes j (its @ its') = successes j its + successes j its'"
  by (simp add: successes_def)

lemma credited_Suc:
  "credited (Suc k) = (if Suc k mod 10000 = 0 then credited k + 10000 else credited k)"
  by (simp add: credited_def div_Suc)

lemma credited_le: "credited k \<le> k"
  by (simp add: credited_def)

lemma credited_mono: "k \<le> l \<Longrightarrow> credited k \<le> credited l"
  by (simp add: credited_def div_le_mono)

lemma credited_plus_mod: "credited k + k mod 10000 = k"
  by (simp add: credited_def)

lemma credited_eq_iff: "credited k = k \<longleftrightarrow> 10000 dvd k"
proof
  assume "credited k = k"
  then have "k = 10000 * (k div 10000)" by (simp add: credited_def)
  then show "10000 dvd k" by (rule dvdI)
next
  assume "10000 dvd k"
  then show "credited k = k" by (simp add: credited_def)
qed

lemma sum_upd:
  assumes "i < (n::nat)"
  shows "(\<Sum>j<n. (f(i := v)) j) + f i = (\<Sum>j<n. f j) + (v::nat)"
proof -
  have fin: "finite {..<n}" and mem: "i \<in> {..<n}" using assms by simp_all
  have a: "(\<Sum>j<n. (f(i := v)) j) = v + (\<Sum>j\<in>{..<n} - {i}. (f(i := v)) j)"
    using sum.remove [OF fin mem, of "f(i := v)"] by simp
  have b: "(\<Sum>j<n. f j) = f i + (\<Sum>j\<in>{..<n} - {i}. f j)"
    using sum.remove [OF fin mem, of f] by simp
  have c: "(\<Sum>j\<in>{..<n} - {i}. (f(i := v)) j) = (\<Sum>j\<in>{..<n} - {i}. f j)"
    by (rule sum.cong) auto
  from a b c show ?thesis by simp
qed

lemma local_step_wrap:
  fixes L :: uint64
  assumes "unat L = K mod 10000"
  shows "((L + 1) mod 10000 = 0) = (Suc K mod 10000 = 0)"
proof -
  have lt: "unat L < 10000" using assms by simp
  then have "unat L + unat (1::uint64) < 2 ^ LENGTH(64)" by simp
  then have u1: "unat (L + 1) = unat L + 1"
    using unat_add_lem [of L 1] by simp
  have "unat ((L + 1) mod 10000) = (unat L + 1) mod 10000"
    by (simp add: unat_mod u1)
  also have "\<dots> = Suc K mod 10000"
    using assms by (simp add: mod_Suc_eq)
  finally have m: "unat ((L + 1) mod 10000) = Suc K mod 10000" .
  have "((L + 1) mod 10000 = 0) = (unat ((L + 1) mod 10000) = 0)"
    by (simp add: unat_0_iff)
  with m show ?thesis by simp
qed

lemma local_step_nowrap:
  fixes L :: uint64
  assumes "unat L = K mod 10000" and "Suc K mod 10000 \<noteq> 0"
  shows "unat (L + 1) = Suc K mod 10000"
proof -
  have lt: "unat L < 10000" using assms by simp
  then have "unat L + unat (1::uint64) < 2 ^ LENGTH(64)" by simp
  then have u1: "unat (L + 1) = unat L + 1"
    using unat_add_lem [of L 1] by simp
  have "Suc K mod 10000 = Suc (K mod 10000)"
    using assms(2) by (simp add: mod_Suc split: if_splits)
  with u1 assms(1) show ?thesis by simp
qed

lemma credited_total_Nil: "credited_total n [] = 0"
  by (simp add: credited_total_def successes_Nil credited_def)

lemma credited_total_same:
  assumes "\<And>j. j < n \<Longrightarrow> successes j its' = successes j its"
  shows "credited_total n its' = credited_total n its"
  unfolding credited_total_def by (rule sum.cong) (simp_all add: assms)

lemma credited_total_ok:
  assumes "i < n"
  shows "credited_total n (its @ [(i, Inr k)]) =
           credited_total n its + (if Suc (successes i its) mod 10000 = 0 then 10000 else 0)"
proof -
  let ?f = "\<lambda>j. credited (successes j its)"
  have e: "(\<lambda>j. credited (successes j (its @ [(i, Inr k)]))) =
             ?f(i := credited (Suc (successes i its)))"
    by (auto simp: fun_eq_iff successes_snoc)
  have "credited_total n (its @ [(i, Inr k)]) + ?f i
          = credited_total n its + credited (Suc (successes i its))"
    unfolding credited_total_def e using assms by (rule sum_upd)
  then show ?thesis by (simp add: credited_Suc split: if_splits)
qed

lemma run_workers_Nil: "run_workers c A [] s = s"
  by (simp add: run_workers_def)

lemma sys_step_length:
  "length (localCounter (sys_step c A it s)) = length (localCounter s)"
  by (cases "snd it")
     (simp_all add: sys_step_def worker_iter_fail worker_iter_ok_local)

lemma run_workers_length:
  "length (localCounter (run_workers c A its s)) = length (localCounter s)"
  by (induction its rule: rev_induct)
     (simp_all add: run_workers_snoc run_workers_Nil sys_step_length)

lemma run_invariant:
  "(\<forall>i<n. unat (localCounter (run_workers c A its (init_sys n)) ! i) = successes i its mod 10000)
   \<and> counter (run_workers c A its (init_sys n)) = of_nat (credited_total n its)"
proof (induction its rule: rev_induct)
  case Nil
  show ?case
    by (simp add: run_workers_Nil init_sys_def successes_Nil credited_total_Nil)
next
  case (snoc it its)
  let ?s = "run_workers c A its (init_sys n)"
  have len: "length (localCounter ?s) = n"
    by (simp add: run_workers_length init_sys_def)
  from snoc have loc: "\<And>j. j < n \<Longrightarrow> unat (localCounter ?s ! j) = successes j its mod 10000"
    and cnt: "counter ?s = of_nat (credited_total n its)" by simp_all
  obtain i r where it: "it = (i, r)" by (cases it)
  show ?case
  proof (cases "i < n")
    case False
    then have same: "\<And>j. j < n \<Longrightarrow> successes j (its @ [it]) = successes j its"
      by (auto simp: successes_snoc it)
    have st: "sys_step c A it ?s = ?s"
      using False by (simp add: sys_step_def it len)
    show ?thesis
      by (simp add: run_workers_snoc st loc cnt same credited_total_same [OF same])
  next
    case True
    show ?thesis
    proof (cases r)
      case (Inl e)
      have same: "\<And>j. j < n \<Longrightarrow> successes j (its @ [it]) = successes j its"
        by (simp add: successes_snoc it Inl)
      have st: "sys_step c A it ?s = ?s\<lparr>logged := logged ?s @ [GenerateFailed i e]\<rparr>"
        using True by (simp add: sys_step_def it len Inl worker_iter_fail)
      show ?thesis
        by (simp add: run_workers_snoc st loc cnt same credited_total_same [OF same])
    next
      case (Inr k)
      let ?K = "successes i its"
      let ?L = "localCounter ?s ! i"
      have st: "sys_step c A it ?s = worker_iter c A i (Inr k) ?s"
        using True by (simp add: sys_step_def it len Inr)
      have st': "sys_step c A (i, Inr k) ?s = worker_iter c A i (Inr k) ?s"
        using st by (simp add: it Inr)
      have Li: "unat ?L = ?K mod 10000" using loc True by simp
      have wrap: "((?L + 1) mod 10000 = 0) = (Suc ?K mod 10000 = 0)"
        using Li by (rule local_step_wrap)
      have ct: "credited_total n (its @ [it]) =
                  credited_total n its + (if Suc ?K mod 10000 = 0 then 10000 else 0)"
        unfolding it Inr using True by (rule credited_total_ok)
      have c: "counter (run_workers c A (its @ [it]) (init_sys n))
                 = of_nat (credited_total n (its @ [it]))"
        by (simp add: run_workers_snoc st worker_iter_ok_counter wrap cnt ct
              updateInterval_def)
      have l: "unat (localCounter (run_workers c A (its @ [it]) (init_sys n)) ! j)
                 = successes j (its @ [it]) mod 10000" if j: "j < n" for j
      proof (cases "j = i")
        case False
        then show ?thesis
          using j by (simp add: run_workers_snoc st' worker_iter_ok_local loc
              successes_snoc it Inr)
      next
        case eq: True
        show ?thesis
        proof (cases "Suc ?K mod 10000 = 0")
          case True
          then show ?thesis
            using j by (simp add: run_workers_snoc st' worker_iter_ok_local wrap eq len
                successes_snoc it Inr updateInterval_def)
        next
          case False
          have "unat (?L + 1) = Suc ?K mod 10000"
            using Li False by (rule local_step_nowrap)
          then show ?thesis
            using j False by (simp add: run_workers_snoc st' worker_iter_ok_local wrap eq len
                successes_snoc it Inr updateInterval_def)
        qed
      qed
      from c l show ?thesis by simp
    qed
  qed
qed

section \<open>Failures of the key generator\<close>

lemma run_workers_failures:
  assumes "i < length (localCounter s)"
  shows "run_workers c A (map (\<lambda>e. (i, Inl e)) es @ its) s =
           run_workers c A its (s\<lparr>logged := logged s @ map (GenerateFailed i) es\<rparr>)"
  using assms
proof (induction es arbitrary: s)
  case Nil
  show ?case by simp
next
  case (Cons e es)
  let ?s = "s\<lparr>logged := logged s @ [GenerateFailed i e]\<rparr>"
  have st: "sys_step c A (i, Inl e) s = ?s"
    using Cons.prems by (simp add: sys_step_def worker_iter_fail)
  have len: "i < length (localCounter ?s)" using Cons.prems by simp
  have "run_workers c A (map (\<lambda>e. (i, Inl e)) (e # es) @ its) s =
          run_workers c A (map (\<lambda>e. (i, Inl e)) es @ its) ?s"
    by (simp add: run_workers_def st)
  also have "\<dots> = run_workers c A its (?s\<lparr>logged := logged ?s @ map (GenerateFailed i) es\<rparr>)"
    using len by (rule Cons.IH)
  finally show ?case by simp
qed

text \<open>
  Claim C7. An iteration in which the key generator fails writes one line to the log
  and changes nothing else: the private counter, the shared counter, the channel and
  the console are as before, and no membership test is made. However many failures
  follow one another, the worker logs each and goes on with its next iteration from
  the state it had; no failure ends the worker or the process.
\<close>

theorem generator_failure_logged_and_retried:
  "worker_iter c A i (Inl e) s = s\<lparr>logged := logged s @ [GenerateFailed i e]\<rparr>
   \<and> (i < length (localCounter s) \<longrightarrow>
        run_workers c A (map (\<lambda>e. (i, Inl e)) es @ its) s =
          run_workers c A its (s\<lparr>logged := logged s @ map (GenerateFailed i) es\<rparr>))"
  by (simp add: worker_iter_fail run_workers_failures)

text \<open>Three failures in a row of the only worker: three log lines, nothing else.\<close>

theorem generator_failure_logged_and_retried_witness:
  "run_workers \<lparr>SerializeCompressed = id, Hash160 = id, Sum256 = id,
                 base58_Encode = (\<lambda>b. ''1'')\<rparr>
      Map.empty [(0, Inl ''rng''), (0, Inl ''rng''), (0, Inl ''eof'')] (init_sys 1)
     = (init_sys 1)\<lparr>logged := [GenerateFailed 0 ''rng'', GenerateFailed 0 ''rng'',
                                   GenerateFailed 0 ''eof'']\<rparr>"
proof -
  let ?c = "\<lparr>SerializeCompressed = id, Hash160 = id, Sum256 = id,
             base58_Encode = (\<lambda>b. ''1'')\<rparr>"
  have l: "0 < length (localCounter (init_sys 1))" by (simp add: init_sys_def)
  have "run_workers ?c Map.empty
          (map (\<lambda>e. (0, Inl e)) [''rng'', ''rng'', ''eof''] @ []) (init_sys 1) =
        run_workers ?c Map.empty []
          ((init_sys 1)\<lparr>logged := logged (init_sys 1) @
              map (GenerateFailed 0) [''rng'', ''rng'', ''eof'']\<rparr>)"
    using generator_failure_logged_and_retried
      [of ?c Map.empty 0 "''rng''" "init_sys 1" "[''rng'', ''rng'', ''eof'']" "[]"] l
    by blast
  then show ?thesis by (simp add: run_workers_Nil init_sys_def)
qed

section \<open>The shared counter\<close>

lemma credited_total_le: "credited_total n its \<le> total_successes n its"
  unfolding credited_total_def total_successes_def
  by (rule sum_mono) (rule credited_le)

lemma credited_total_dvd: "10000 dvd credited_total n its"
  unfolding credited_total_def
  by (rule dvd_sum) (simp add: credited_def)

lemma credited_total_eq_iff:
  "credited_total n its = total_successes n its \<longleftrightarrow> (\<forall>wid<n. 10000 dvd successes wid its)"
proof
  assume eq: "credited_total n its = total_successes n its"
  show "\<forall>wid<n. 10000 dvd successes wid its"
  proof (rule ccontr)
    assume "\<not> (\<forall>wid<n. 10000 dvd successes wid its)"
    then obtain i where i: "i < n" and nd: "\<not> 10000 dvd successes i its" by blast
    have "credited (successes i its) \<noteq> successes i its"
      using nd by (simp add: credited_eq_iff)
    then have lt: "credited (successes i its) < successes i its"
      using credited_le [of "successes i its"] by simp
    have "(\<Sum>wid<n. credited (successes wid its)) < (\<Sum>wid<n. successes wid its)"
      by (rule sum_strict_mono_ex1) (use i lt in \<open>auto simp: credited_le\<close>)
    then show False
      using eq by (simp add: credited_total_def total_successes_def)
  qed
next
  assume all: "\<forall>wid<n. 10000 dvd successes wid its"
  show "credited_total n its = total_successes n its"
    unfolding credited_total_def total_successes_def
    by (rule sum.cong) (use all in \<open>simp_all add: credited_eq_iff\<close>)
qed

lemma unat_counter_run:
  assumes "total_successes n its < 2 ^ 64"
  shows "unat (counter (run_workers c A its (init_sys n))) = credited_total n its"
proof -
  have "credited_total n its < 2 ^ 64"
    using credited_total_le [where n=n and its=its] assms by linarith
  then show ?thesis
    using run_invariant [where n=n and c=c and A=A and its=its] by (simp add: unat_of_nat)
qed

lemma sys_step_counter:
  "counter (sys_step c A it s) = counter s
   \<or> counter (sys_step c A it s) = counter s + updateInterval"
  by (cases "snd it")
     (simp_all add: sys_step_def worker_iter_fail worker_iter_ok_counter)

text \<open>
  Claim C10. At every point of a run the shared counter holds the sum of the full
  batches of the workers, a multiple of 10000, in 64 bits: every iteration leaves the
  counter as it is or adds 10000 to it, and nothing else writes to it. In a run in
  which fewer than \<open>2\<^sup>6\<^sup>4\<close> keys were generated (the range of the
  \<^verbatim>\<open>uint64\<close> counter) its value is therefore a multiple of 10000, and it
  equals the number of successful generations exactly when the number of successes of
  every worker is a multiple of 10000.
\<close>

theorem counter_is_multiple_of_batch:
  "counter (run_workers c A its (init_sys n)) = of_nat (credited_total n its)
   \<and> 10000 dvd credited_total n its
   \<and> (total_successes n its < 2 ^ 64 \<longrightarrow>
        10000 dvd unat (counter (run_workers c A its (init_sys n)))
        \<and> (unat (counter (run_workers c A its (init_sys n))) = total_successes n its
             \<longleftrightarrow> (\<forall>wid<n. 10000 dvd successes wid its)))
   \<and> (counter (sys_step c A it s) = counter s
        \<or> counter (sys_step c A it s) = counter s + updateInterval)"
proof -
  have a: "counter (run_workers c A its (init_sys n)) = of_nat (credited_total n its)"
    using run_invariant [where n=n and c=c and A=A and its=its] by simp
  have b: "10000 dvd unat (counter (run_workers c A its (init_sys n)))
        \<and> (unat (counter (run_workers c A its (init_sys n))) = total_successes n its
             \<longleftrightarrow> (\<forall>wid<n. 10000 dvd successes wid its))"
    if range: "total_successes n its < 2 ^ 64"
  proof -
    have u: "unat (counter (run_workers c A its (init_sys n))) = credited_total n its"
      using range by (rule unat_counter_run)
    show ?thesis
      unfolding u using credited_total_dvd credited_total_eq_iff by blast
  qed
  from a b credited_total_dvd [of n its] sys_step_counter [of c A it s]
  show ?thesis by blast
qed

text \<open>
  One worker, two successes and a failure between them: the counter is 0, a multiple of
  10000, and is not the number of successes.
\<close>

theorem counter_is_multiple_of_batch_witness:
  "unat (counter (run_workers
      \<lparr>SerializeCompressed = id, Hash160 = id, Sum256 = id, base58_Encode = (\<lambda>b. ''1'')\<rparr>
      Map.empty [(0, Inr [7]), (0, Inl ''rng''), (0, Inr [8])] (init_sys 1))) \<noteq>
   total_successes 1 [(0, Inr [7]), (0, Inl ''rng''), (0, Inr [8])]
   \<and> 10000 dvd unat (counter (run_workers
      \<lparr>SerializeCompressed = id, Hash160 = id, Sum256 = id, base58_Encode = (\<lambda>b. ''1'')\<rparr>
      Map.empty [(0, Inr [7]), (0, Inl ''rng''), (0, Inr [8])] (init_sys 1)))"
proof -
  let ?c = "\<lparr>SerializeCompressed = id, Hash160 = id, Sum256 = id,
             base58_Encode = (\<lambda>b. ''1'')\<rparr>"
  let ?its = "[(0, Inr [7]), (0, Inl ''rng''), (0, Inr [8])] :: iteration list"
  have s0: "successes 0 ?its = 2" by (simp add: successes_def)
  have t: "total_successes 1 ?its = 2" using s0 by (simp add: total_successes_def)
  then have h: "total_successes 1 ?its < 2 ^ 64" by simp
  have nd: "\<not> (\<forall>wid<1. 10000 dvd successes wid ?its)" using s0 by simp
  from counter_is_multiple_of_batch
    [of ?c Map.empty ?its 1 "(0, Inl ''rng'')" "init_sys 1"] h nd
  show ?thesis by blast
qed


section \<open>Reads of the counter inside an iteration\<close>

text \<open>
  The two parts, one after the other, are the iteration \<open>worker_iter\<close>.
\<close>

lemma worker_iter_split:
  "worker_iter c A wid r s =
     (case worker_generate c wid r s of
        (None, s') \<Rightarrow> s'
      | (Some generated, s') \<Rightarrow> worker_count_and_match A wid generated s')"
proof (cases r)
  case (Inl e)
  then show ?thesis
    by (simp add: worker_iter_def worker_generate_def generate_fail)
next
  case (Inr k)
  obtain a p' where g: "generateKeyAndAddress c (Inr k) (bufferPool s) = (Inr (k, a), p')"
    by (rule generate_ok_cases)
  show ?thesis
    by (simp add: Inr worker_iter_def worker_generate_def worker_count_and_match_def g Let_def)
qed

lemma worker_generate_fail:
  "worker_generate c wid (Inl e) s = (None, s\<lparr>logged := logged s @ [GenerateFailed wid e]\<rparr>)"
  by (simp add: worker_generate_def generate_fail)

lemma worker_generate_ok:
  "\<exists>a p. worker_generate c wid (Inr k) s = (Some (k, a), s\<lparr>bufferPool := p\<rparr>)"
proof -
  obtain a p' where g: "generateKeyAndAddress c (Inr k) (bufferPool s) = (Inr (k, a), p')"
    by (rule generate_ok_cases)
  have "worker_generate c wid (Inr k) s = (Some (k, a), s\<lparr>bufferPool := p'\<rparr>)"
    by (simp add: worker_generate_def g)
  then show ?thesis by blast
qed

lemma count_counter:
  "counter (worker_count_and_match A wid g s) =
     (if (localCounter s ! wid + 1) mod 10000 = 0 then counter s + 10000 else counter s)"
  by (simp add: worker_count_and_match_def Let_def updateInterval_def)

lemma count_local:
  "localCounter (worker_count_and_match A wid g s) =
     (localCounter s)[wid := (if (localCounter s ! wid + 1) mod 10000 = 0
                              then 0 else localCounter s ! wid + 1)]"
  by (simp add: worker_count_and_match_def Let_def updateInterval_def)

text \<open>What an action does, case by case.\<close>

lemma act_disabled_Generate:
  "\<not> (wid < length (pending f) \<and> pending f ! wid = None) \<Longrightarrow>
   act_step c A (Generate wid r) f = f"
  by (auto simp: act_step_def)

lemma act_disabled_Finish:
  "\<not> (wid < length (pending f) \<and> pending f ! wid \<noteq> None) \<Longrightarrow>
   act_step c A (Finish wid) f = f"
  by (auto simp: act_step_def split: option.splits)

lemma act_Generate_fail:
  assumes "wid < length (pending f)" and "pending f ! wid = None"
  shows "act_step c A (Generate wid (Inl e)) f =
           f\<lparr>shared := (shared f)\<lparr>logged := logged (shared f) @ [GenerateFailed wid e]\<rparr>\<rparr>"
proof -
  have p: "(pending f)[wid := None] = pending f"
    using assms(2) by (metis list_update_id)
  show ?thesis
    using assms by (simp add: act_step_def worker_generate_fail p)
qed

lemma act_Generate_ok:
  assumes "wid < length (pending f)" and "pending f ! wid = None"
  shows "\<exists>a p. act_step c A (Generate wid (Inr k)) f =
           f\<lparr>shared := (shared f)\<lparr>bufferPool := p\<rparr>,
             pending := (pending f)[wid := Some (k, a)],
             returned := (returned f)[wid := Suc (returned f ! wid)]\<rparr>"
proof -
  obtain a p where g: "worker_generate c wid (Inr k) (shared f) =
      (Some (k, a), (shared f)\<lparr>bufferPool := p\<rparr>)"
    using worker_generate_ok by blast
  have "act_step c A (Generate wid (Inr k)) f =
           f\<lparr>shared := (shared f)\<lparr>bufferPool := p\<rparr>,
             pending := (pending f)[wid := Some (k, a)],
             returned := (returned f)[wid := Suc (returned f ! wid)]\<rparr>"
    using assms by (simp add: act_step_def g)
  then show ?thesis by blast
qed

lemma act_Finish:
  assumes "wid < length (pending f)" and "pending f ! wid = Some g"
  shows "act_step c A (Finish wid) f =
           f\<lparr>shared := worker_count_and_match A wid g (shared f),
             pending := (pending f)[wid := None]\<rparr>"
  using assms by (simp add: act_step_def)

lemma run_actions_Nil: "run_actions c A [] f = f"
  by (simp add: run_actions_def)

lemma run_actions_snoc:
  "run_actions c A (acts @ [a]) f = act_step c A a (run_actions c A acts f)"
  by (simp add: run_actions_def)

lemma run_actions_append:
  "run_actions c A (acts @ later) f = run_actions c A later (run_actions c A acts f)"
  by (simp add: run_actions_def)

lemma act_step_cases:
  obtains (idle) "act_step c A a f = f"
  | (failed) wid e where "a = Generate wid (Inl e)" "wid < length (pending f)"
      "pending f ! wid = None"
      "act_step c A a f =
         f\<lparr>shared := (shared f)\<lparr>logged := logged (shared f) @ [GenerateFailed wid e]\<rparr>\<rparr>"
  | (generated) wid k a' p where "a = Generate wid (Inr k)" "wid < length (pending f)"
      "pending f ! wid = None"
      "act_step c A a f =
         f\<lparr>shared := (shared f)\<lparr>bufferPool := p\<rparr>,
           pending := (pending f)[wid := Some (k, a')],
           returned := (returned f)[wid := Suc (returned f ! wid)]\<rparr>"
  | (finished) wid g where "a = Finish wid" "wid < length (pending f)"
      "pending f ! wid = Some g"
      "act_step c A a f =
         f\<lparr>shared := worker_count_and_match A wid g (shared f),
           pending := (pending f)[wid := None]\<rparr>"
proof (cases a)
  case (Generate wid r)
  show ?thesis
  proof (cases "wid < length (pending f) \<and> pending f ! wid = None")
    case False
    then show ?thesis using idle Generate by (simp add: act_disabled_Generate)
  next
    case True
    then have w: "wid < length (pending f)" and n: "pending f ! wid = None" by simp_all
    show ?thesis
    proof (cases r)
      case (Inl e)
      show ?thesis
        using failed [of wid e] Generate Inl w n act_Generate_fail [OF w n] by simp
    next
      case (Inr k)
      obtain a' p where "act_step c A (Generate wid (Inr k)) f =
           f\<lparr>shared := (shared f)\<lparr>bufferPool := p\<rparr>,
             pending := (pending f)[wid := Some (k, a')],
             returned := (returned f)[wid := Suc (returned f ! wid)]\<rparr>"
        using act_Generate_ok [OF w n] by blast
      then show ?thesis
        using generated [of wid k a' p] Generate Inr w n by simp
    qed
  qed
next
  case (Finish wid)
  show ?thesis
  proof (cases "wid < length (pending f) \<and> pending f ! wid \<noteq> None")
    case False
    then show ?thesis using idle Finish by (simp add: act_disabled_Finish)
  next
    case True
    then obtain g where w: "wid < length (pending f)" and g: "pending f ! wid = Some g"
      by auto
    show ?thesis
      using finished [of wid g] Finish w g act_Finish [OF w g] by simp
  qed
qed

lemma act_step_shaped: "shaped n f \<Longrightarrow> shaped n (act_step c A a f)"
  by (cases rule: act_step_cases [of c A a f])
     (simp_all add: shaped_def count_local)

lemma run_actions_shaped: "shaped n f \<Longrightarrow> shaped n (run_actions c A acts f)"
  by (induction acts rule: rev_induct)
     (simp_all add: run_actions_Nil run_actions_snoc act_step_shaped)

lemma init_workers_shaped: "shaped n (init_workers n)"
  by (simp add: shaped_def init_workers_def init_sys_def)

text \<open>
  The invariant of the interleaved run: a worker that holds an uncounted key has had a
  call return, the private counter of every worker is what it has taken through the
  batch check modulo 10000, and the shared counter is the sum of the full batches.
\<close>

lemma credited_sum_same:
  assumes "\<And>j. j < (n::nat) \<Longrightarrow> h' j = h j"
  shows "(\<Sum>j<n. credited (h' j)) = (\<Sum>j<n. credited (h j))"
  by (rule sum.cong) (simp_all add: assms)

lemma credited_sum_Suc:
  assumes "i < (n::nat)" and "h' i = Suc (h i)"
    and "\<And>j. j < n \<Longrightarrow> j \<noteq> i \<Longrightarrow> h' j = h j"
  shows "(\<Sum>j<n. credited (h' j)) =
           (\<Sum>j<n. credited (h j)) + (if Suc (h i) mod 10000 = 0 then 10000 else 0)"
proof -
  let ?g = "\<lambda>j. credited (h j)"
  have "(\<Sum>j<n. credited (h' j)) = (\<Sum>j<n. (?g(i := credited (Suc (h i)))) j)"
    by (rule sum.cong) (auto simp: assms(2) assms(3))
  moreover have "(\<Sum>j<n. (?g(i := credited (Suc (h i)))) j) + ?g i
          = (\<Sum>j<n. ?g j) + credited (Suc (h i))"
    using sum_upd [OF assms(1), of ?g "credited (Suc (h i))"] by simp
  ultimately show ?thesis by (simp add: credited_Suc split: if_splits)
qed

lemma actions_invariant:
  "(\<forall>wid<n. (pending (run_actions c A acts (init_workers n)) ! wid \<noteq> None \<longrightarrow>
                0 < returned (run_actions c A acts (init_workers n)) ! wid)
            \<and> unat (localCounter (shared (run_actions c A acts (init_workers n))) ! wid) =
                carried (run_actions c A acts (init_workers n)) wid mod 10000)
   \<and> counter (shared (run_actions c A acts (init_workers n))) =
       of_nat (\<Sum>wid<n. credited (carried (run_actions c A acts (init_workers n)) wid))"
proof (induction acts rule: rev_induct)
  case Nil
  show ?case
    by (simp add: run_actions_Nil init_workers_def init_sys_def carried_def credited_def)
next
  case (snoc a acts)
  let ?f = "run_actions c A acts (init_workers n)"
  let ?f' = "act_step c A a ?f"
  have sh: "shaped n ?f"
    by (rule run_actions_shaped) (rule init_workers_shaped)
  then have lenL: "length (localCounter (shared ?f)) = n" and lenP: "length (pending ?f) = n"
    and lenR: "length (returned ?f) = n"
    by (simp_all add: shaped_def)
  from snoc have pos: "\<And>j. j < n \<Longrightarrow> pending ?f ! j \<noteq> None \<Longrightarrow> 0 < returned ?f ! j"
    and loc: "\<And>j. j < n \<Longrightarrow> unat (localCounter (shared ?f) ! j) = carried ?f j mod 10000"
    and cnt: "counter (shared ?f) = of_nat (\<Sum>wid<n. credited (carried ?f wid))"
    by simp_all
  have goal: "(\<forall>wid<n. (pending ?f' ! wid \<noteq> None \<longrightarrow> 0 < returned ?f' ! wid)
            \<and> unat (localCounter (shared ?f') ! wid) = carried ?f' wid mod 10000)
     \<and> counter (shared ?f') = of_nat (\<Sum>wid<n. credited (carried ?f' wid))"
  proof (cases rule: act_step_cases [of c A a ?f])
    case idle
    then show ?thesis using pos loc cnt by simp
  next
    case (failed wid e)
    have same: "\<And>j. carried ?f' j = carried ?f j"
      by (simp add: failed(4) carried_def)
    show ?thesis
      using pos loc cnt by (simp add: same) (simp add: failed(4))
  next
    case (generated wid k a' p)
    have w: "wid < n" using generated(2) lenP by simp
    have same: "carried ?f' j = carried ?f j" if "j < n" for j
    proof (cases "j = wid")
      case True
      then show ?thesis
        using w generated(3) lenP lenR by (simp add: generated(4) carried_def)
    next
      case False
      then show ?thesis by (simp add: generated(4) carried_def)
    qed
    have p': "pending ?f' ! j \<noteq> None \<longrightarrow> 0 < returned ?f' ! j" if "j < n" for j
    proof (cases "j = wid")
      case True
      then show ?thesis using w lenR by (simp add: generated(4))
    next
      case False
      then show ?thesis using pos [OF that] by (simp add: generated(4))
    qed
    have l': "unat (localCounter (shared ?f') ! j) = carried ?f' j mod 10000" if "j < n" for j
      using loc [OF that] same [OF that] by (simp add: generated(4))
    have c': "counter (shared ?f') = of_nat (\<Sum>wid<n. credited (carried ?f' wid))"
      using cnt credited_sum_same [of n "carried ?f'" "carried ?f", OF same]
      by (simp add: generated(4))
    from p' l' c' show ?thesis by blast
  next
    case (finished wid g)
    have w: "wid < n" using finished(2) lenP by simp
    let ?K = "carried ?f wid"
    let ?L = "localCounter (shared ?f) ! wid"
    have rpos: "0 < returned ?f ! wid"
      using pos [OF w] finished(3) by simp
    have K: "?K = returned ?f ! wid - 1"
      using finished(3) by (simp add: carried_def)
    have up: "carried ?f' wid = Suc ?K"
      using w lenP rpos K by (simp add: finished(4) carried_def)
    have other: "carried ?f' j = carried ?f j" if "j < n" "j \<noteq> wid" for j
      using that by (simp add: finished(4) carried_def)
    have Li: "unat ?L = ?K mod 10000" using loc [OF w] .
    have wrap: "((?L + 1) mod 10000 = 0) = (Suc ?K mod 10000 = 0)"
      using Li by (rule local_step_wrap)
    have sum: "(\<Sum>j<n. credited (carried ?f' j)) =
        (\<Sum>j<n. credited (carried ?f j)) + (if Suc ?K mod 10000 = 0 then 10000 else 0)"
      using w up other by (rule credited_sum_Suc)
    have c0: "counter (shared ?f') =
        (if Suc ?K mod 10000 = 0 then counter (shared ?f) + 10000 else counter (shared ?f))"
      by (simp add: finished(4) count_counter wrap)
    have c1: "(of_nat (\<Sum>j<n. credited (carried ?f' j)) :: uint64) =
        (if Suc ?K mod 10000 = 0 then of_nat (\<Sum>j<n. credited (carried ?f j)) + 10000
         else of_nat (\<Sum>j<n. credited (carried ?f j)))"
      unfolding sum by simp
    have c': "counter (shared ?f') = of_nat (\<Sum>wid<n. credited (carried ?f' wid))"
      unfolding c0 c1 cnt by (rule refl)
    have p': "pending ?f' ! j \<noteq> None \<longrightarrow> 0 < returned ?f' ! j" if "j < n" for j
    proof (cases "j = wid")
      case True
      then show ?thesis using w lenP by (simp add: finished(4))
    next
      case False
      then show ?thesis using pos [OF that] by (simp add: finished(4))
    qed
    have LC: "localCounter (shared ?f') =
        (localCounter (shared ?f))[wid := (if Suc ?K mod 10000 = 0 then 0 else ?L + 1)]"
      by (simp add: finished(4) count_local wrap)
    have l': "unat (localCounter (shared ?f') ! j) = carried ?f' j mod 10000" if j: "j < n" for j
    proof (cases "j = wid")
      case False
      then show ?thesis
        unfolding LC other [OF j False] using loc [OF j] by simp
    next
      case eq: True
      show ?thesis
      proof (cases "Suc ?K mod 10000 = 0")
        case True
        then show ?thesis
          unfolding LC eq up using w lenL by simp
      next
        case False
        have "unat (?L + 1) = Suc ?K mod 10000"
          using Li False by (rule local_step_nowrap)
        then show ?thesis
          unfolding LC eq up using w lenL False by simp
      qed
    qed
    from p' l' c' show ?thesis by blast
  qed
  then show ?case by (simp add: run_actions_snoc)
qed

text \<open>
  A run in which no iteration is interrupted is a run of \<open>run_workers\<close>, and every
  worker is at the top of its loop at its end.
\<close>

lemma whole_iterations_snoc:
  "whole_iterations (its @ [it]) =
     whole_iterations its @ [Generate (fst it) (snd it), Finish (fst it)]"
  by (simp add: whole_iterations_def)

lemma run_actions_two:
  "run_actions c A (acts @ [a, b]) f = act_step c A b (act_step c A a (run_actions c A acts f))"
  by (simp add: run_actions_def)

lemma whole_iterations_run:
  "shared (run_actions c A (whole_iterations its) (init_workers n)) =
     run_workers c A its (init_sys n)
   \<and> pending (run_actions c A (whole_iterations its) (init_workers n)) = replicate n None
   \<and> (\<forall>wid<n. returned (run_actions c A (whole_iterations its) (init_workers n)) ! wid =
         successes wid its)"
proof (induction its rule: rev_induct)
  case Nil
  show ?case
    by (simp add: whole_iterations_def run_actions_Nil run_workers_Nil init_workers_def
        successes_Nil)
next
  case (snoc it its)
  let ?f = "run_actions c A (whole_iterations its) (init_workers n)"
  let ?s = "run_workers c A its (init_sys n)"
  obtain i r where it: "it = (i, r)" by (cases it)
  have sh: "shaped n ?f"
    by (rule run_actions_shaped) (rule init_workers_shaped)
  then have lenP: "length (pending ?f) = n" and lenR: "length (returned ?f) = n"
    by (simp_all add: shaped_def)
  have lenL: "length (localCounter ?s) = n"
    by (simp add: run_workers_length init_sys_def)
  from snoc have S: "shared ?f = ?s" and P: "pending ?f = replicate n None"
    and R: "\<And>j. j < n \<Longrightarrow> returned ?f ! j = successes j its"
    by simp_all
  let ?g = "act_step c A (Finish i) (act_step c A (Generate i r) ?f)"
  have run: "run_actions c A (whole_iterations (its @ [it])) (init_workers n) = ?g"
    by (simp add: whole_iterations_snoc run_actions_two it)
  have "shared ?g = run_workers c A (its @ [it]) (init_sys n)
      \<and> pending ?g = replicate n None
      \<and> (\<forall>wid<n. returned ?g ! wid = successes wid (its @ [it]))"
  proof (cases "i < n")
    case False
    have g: "?g = ?f"
      using False lenP by (simp add: act_disabled_Generate act_disabled_Finish)
    have st: "sys_step c A it ?s = ?s"
      using False lenL by (simp add: sys_step_def it)
    have "\<forall>wid<n. successes wid (its @ [it]) = successes wid its"
      using False by (auto simp: successes_snoc it)
    then show ?thesis
      using S P R by (simp add: g run_workers_snoc st)
  next
    case True
    have en: "i < length (pending ?f)" "pending ?f ! i = None"
      using True lenP P by simp_all
    have st: "sys_step c A it ?s = worker_iter c A i r ?s"
      using True lenL by (simp add: sys_step_def it)
    show ?thesis
    proof (cases r)
      case (Inl e)
      let ?f1 = "?f\<lparr>shared := (shared ?f)\<lparr>logged := logged (shared ?f) @ [GenerateFailed i e]\<rparr>\<rparr>"
      have g1: "act_step c A (Generate i r) ?f = ?f1"
        unfolding Inl using en by (rule act_Generate_fail)
      have g: "?g = ?f1"
        unfolding g1 using en by (simp add: act_disabled_Finish)
      have sc: "\<forall>wid<n. successes wid (its @ [it]) = successes wid its"
        by (simp add: successes_snoc it Inl)
      have st': "sys_step c A it ?s = ?s\<lparr>logged := logged ?s @ [GenerateFailed i e]\<rparr>"
        using st by (simp add: Inl worker_iter_fail)
      show ?thesis
        unfolding g using S P R sc by (simp add: run_workers_snoc st')
    next
      case (Inr k)
      obtain a p where wg: "worker_generate c i (Inr k) (shared ?f) =
          (Some (k, a), (shared ?f)\<lparr>bufferPool := p\<rparr>)"
        using worker_generate_ok by blast
      let ?f1 = "?f\<lparr>shared := (shared ?f)\<lparr>bufferPool := p\<rparr>,
                   pending := (pending ?f)[i := Some (k, a)],
                   returned := (returned ?f)[i := Suc (returned ?f ! i)]\<rparr>"
      have g1: "act_step c A (Generate i r) ?f = ?f1"
        using en by (simp add: act_step_def Inr wg)
      have en1: "i < length (pending ?f1)" "pending ?f1 ! i = Some (k, a)"
        using en by simp_all
      have g: "?g = ?f1\<lparr>shared := worker_count_and_match A i (k, a) (shared ?f1),
                         pending := (pending ?f1)[i := None]\<rparr>"
        unfolding g1 using en1 by (rule act_Finish)
      have wi: "worker_iter c A i (Inr k) ?s =
          worker_count_and_match A i (k, a) (?s\<lparr>bufferPool := p\<rparr>)"
        using wg by (simp add: worker_iter_split S)
      have st': "sys_step c A it ?s =
          worker_count_and_match A i (k, a) (?s\<lparr>bufferPool := p\<rparr>)"
        using st wi by (simp add: Inr)
      have sg: "shared ?g = run_workers c A (its @ [it]) (init_sys n)"
        unfolding g by (simp add: run_workers_snoc st' S)
      have pg: "pending ?g = replicate n None"
        unfolding g using P True by (simp add: list_update_same_conv)
      have rg: "returned ?g ! wid = successes wid (its @ [it])" if "wid < n" for wid
      proof (cases "wid = i")
        case True
        have "successes wid (its @ [it]) = Suc (successes wid its)"
          using True by (simp add: successes_snoc it Inr)
        then show ?thesis
          unfolding g using True that lenR R [OF that] by simp
      next
        case False
        have "successes wid (its @ [it]) = successes wid its"
          using False by (simp add: successes_snoc it)
        then show ?thesis
          unfolding g using False R [OF that] by simp
      qed
      from sg pg rg show ?thesis by blast
    qed
  qed
  then show ?case unfolding run .
qed

lemma successes_replicate: "successes wid (replicate m (wid, Inr k)) = m"
  by (induction m) (simp_all add: successes_def)

text \<open>
  Both counts of a worker only grow, and they differ by at most one; this bounds what
  the counter lacks.
\<close>

lemma carried_le_returned: "carried f j \<le> returned f ! j"
  by (simp add: carried_def)

lemma returned_le_carried: "returned f ! j \<le> Suc (carried f j)"
  by (auto simp: carried_def)

lemma act_step_carried_mono:
  assumes "shaped n f" and "j < n"
  shows "carried f j \<le> carried (act_step c A a f) j"
proof -
  have len: "length (pending f) = n" "length (returned f) = n"
    using assms(1) by (simp_all add: shaped_def)
  show ?thesis
  proof (cases rule: act_step_cases [of c A a f])
    case idle
    then show ?thesis by simp
  next
    case (failed wid e)
    then show ?thesis by (simp add: carried_def)
  next
    case (generated wid k a' p)
    then show ?thesis
      using len assms(2) by (cases "j = wid") (simp_all add: carried_def)
  next
    case (finished wid g)
    then show ?thesis
      using len assms(2) by (cases "j = wid") (simp_all add: carried_def)
  qed
qed

lemma act_step_returned_mono:
  assumes "shaped n f" and "j < n"
  shows "returned f ! j \<le> returned (act_step c A a f) ! j"
proof -
  have len: "length (pending f) = n" "length (returned f) = n"
    using assms(1) by (simp_all add: shaped_def)
  show ?thesis
  proof (cases rule: act_step_cases [of c A a f])
    case idle
    then show ?thesis by simp
  next
    case (failed wid e)
    then show ?thesis by simp
  next
    case (generated wid k a' p)
    then show ?thesis
      using len assms(2) by (cases "j = wid") simp_all
  next
    case (finished wid g)
    then show ?thesis by simp
  qed
qed

lemma run_actions_mono:
  assumes "shaped n f" and "j < n"
  shows "carried f j \<le> carried (run_actions c A later f) j
       \<and> returned f ! j \<le> returned (run_actions c A later f) ! j"
proof (induction later rule: rev_induct)
  case Nil
  show ?case by (simp add: run_actions_Nil)
next
  case (snoc a later)
  let ?g = "run_actions c A later f"
  have sh: "shaped n ?g" using assms(1) by (rule run_actions_shaped)
  have "carried ?g j \<le> carried (act_step c A a ?g) j"
    using sh assms(2) by (rule act_step_carried_mono)
  moreover have "returned ?g ! j \<le> returned (act_step c A a ?g) ! j"
    using sh assms(2) by (rule act_step_returned_mono)
  ultimately show ?case
    using snoc by (simp add: run_actions_snoc)
qed

lemma credited_carried_le:
  "(\<Sum>wid<n. credited (carried f wid)) \<le> total_returned n f"
  unfolding total_returned_def
proof (rule sum_mono)
  fix wid
  show "credited (carried f wid) \<le> returned f ! wid"
    using credited_le [of "carried f wid"] carried_le_returned [of f wid] by linarith
qed

lemma unat_counter_actions:
  assumes "total_returned n (run_actions c A acts (init_workers n)) < 2 ^ 64"
  shows "unat (counter (shared (run_actions c A acts (init_workers n)))) =
           (\<Sum>wid<n. credited (carried (run_actions c A acts (init_workers n)) wid))"
proof -
  let ?f = "run_actions c A acts (init_workers n)"
  have lt: "(\<Sum>wid<n. credited (carried ?f wid)) < 2 ^ 64"
    using credited_carried_le [where n=n and f="?f"] assms by linarith
  have c: "counter (shared ?f) = of_nat (\<Sum>wid<n. credited (carried ?f wid))"
    using actions_invariant [where n=n and c=c and A=A and acts=acts] by blast
  show ?thesis
    unfolding c using lt by (simp add: unat_of_nat del: of_nat_sum)
qed

lemma returned_gap:
  "returned f ! j \<le> credited (carried f j) + 10000"
proof -
  have "carried f j mod 10000 < 10000" by simp
  then have "carried f j mod 10000 \<le> 9999" by linarith
  then have "carried f j \<le> credited (carried f j) + 9999"
    using credited_plus_mod [of "carried f j"] by linarith
  then show ?thesis
    using returned_le_carried [of f j] by linarith
qed

lemma returned_gap_idle:
  assumes "pending f ! j = None"
  shows "returned f ! j \<le> credited (carried f j) + 9999"
proof -
  have "carried f j mod 10000 < 10000" by simp
  then have "carried f j mod 10000 \<le> 9999" by linarith
  then have "carried f j \<le> credited (carried f j) + 9999"
    using credited_plus_mod [of "carried f j"] by linarith
  then show ?thesis
    using assms by (simp add: carried_def)
qed

lemma total_gap:
  "total_returned n f \<le> (\<Sum>wid<n. credited (carried f wid)) + n * 10000"
proof -
  have "total_returned n f \<le> (\<Sum>wid<n. credited (carried f wid) + 10000)"
    unfolding total_returned_def by (rule sum_mono) (rule returned_gap)
  then show ?thesis by (simp add: sum.distrib)
qed

lemma total_gap_idle:
  assumes "\<forall>wid<n. pending f ! wid = None"
  shows "total_returned n f \<le> (\<Sum>wid<n. credited (carried f wid)) + n * 9999"
proof -
  have "total_returned n f \<le> (\<Sum>wid<n. credited (carried f wid) + 9999)"
    unfolding total_returned_def
    by (rule sum_mono) (use assms in \<open>simp add: returned_gap_idle\<close>)
  then show ?thesis by (simp add: sum.distrib)
qed


section \<open>The counter against the number of generated keys\<close>

text \<open>
  Claim C2, as the spec states it, has a worker that has completed \<open>k\<close> successful
  generator calls hold exactly \<open>10000 * (k div 10000)\<close> in the shared counter, so that
  a read at any time falls short of the true total by at most 9999 for each worker.
  The worker adds a batch only after the generator has returned: with 9999 keys counted
  and the call for the next key just returned, one worker has completed 10000 calls and
  the counter is still 0, short by 10000.
\<close>

theorem read_before_batch_check_counterexample:
  "returned (run_actions
      \<lparr>SerializeCompressed = id, Hash160 = id, Sum256 = id, base58_Encode = (\<lambda>b. ''1'')\<rparr>
      Map.empty (whole_iterations (replicate 9999 (0, Inr [7])) @ [Generate 0 (Inr [7])])
      (init_workers 1)) ! 0 = 10000
   \<and> unat (counter (shared (run_actions
      \<lparr>SerializeCompressed = id, Hash160 = id, Sum256 = id, base58_Encode = (\<lambda>b. ''1'')\<rparr>
      Map.empty (whole_iterations (replicate 9999 (0, Inr [7])) @ [Generate 0 (Inr [7])])
      (init_workers 1)))) = 0
   \<and> unat (counter (shared (run_actions
      \<lparr>SerializeCompressed = id, Hash160 = id, Sum256 = id, base58_Encode = (\<lambda>b. ''1'')\<rparr>
      Map.empty (whole_iterations (replicate 9999 (0, Inr [7])) @ [Generate 0 (Inr [7])])
      (init_workers 1)))) \<noteq> 10000 * (10000 div 10000)
   \<and> 1 * 9999 < returned (run_actions
      \<lparr>SerializeCompressed = id, Hash160 = id, Sum256 = id, base58_Encode = (\<lambda>b. ''1'')\<rparr>
      Map.empty (whole_iterations (replicate 9999 (0, Inr [7])) @ [Generate 0 (Inr [7])])
      (init_workers 1)) ! 0 - unat (counter (shared (run_actions
      \<lparr>SerializeCompressed = id, Hash160 = id, Sum256 = id, base58_Encode = (\<lambda>b. ''1'')\<rparr>
      Map.empty (whole_iterations (replicate 9999 (0, Inr [7])) @ [Generate 0 (Inr [7])])
      (init_workers 1))))"
proof -
  let ?c = "\<lparr>SerializeCompressed = id, Hash160 = id, Sum256 = id,
             base58_Encode = (\<lambda>b. ''1'')\<rparr>"
  define its :: "iteration list" where "its = replicate 9999 (0, Inr [7])"
  define F0 where "F0 = run_actions ?c Map.empty (whole_iterations its) (init_workers 1)"
  define F where "F = run_actions ?c Map.empty
    (whole_iterations its @ [Generate 0 (Inr [7])]) (init_workers 1)"
  have s: "successes 0 its = 9999"
    unfolding its_def by (rule successes_replicate)
  have wr: "pending F0 = replicate 1 None \<and> (\<forall>wid<1. returned F0 ! wid = successes wid its)"
    unfolding F0_def
    using whole_iterations_run [where c="?c" and A=Map.empty and its=its and n=1] by blast
  have p0: "0 < length (pending F0)" and p1: "pending F0 ! 0 = None"
    using wr by simp_all
  have r0: "returned F0 ! 0 = 9999" using wr s by simp
  have sh: "shaped 1 F0"
    unfolding F0_def by (rule run_actions_shaped) (rule init_workers_shaped)
  have step: "F = act_step ?c Map.empty (Generate 0 (Inr [7])) F0"
    unfolding F_def F0_def by (rule run_actions_snoc)
  obtain a p where g: "F = F0\<lparr>shared := (shared F0)\<lparr>bufferPool := p\<rparr>,
             pending := (pending F0)[0 := Some ([7], a)],
             returned := (returned F0)[0 := Suc (returned F0 ! 0)]\<rparr>"
    using act_Generate_ok [OF p0 p1, of ?c Map.empty "[7]"] unfolding step by blast
  have rF: "returned F ! 0 = 10000"
    using sh r0 unfolding g by (simp add: shaped_def)
  have pF: "pending F ! 0 \<noteq> None"
    using p0 unfolding g by simp
  have cr: "carried F 0 = 9999" using rF pF by (simp add: carried_def)
  have "counter (shared F) = of_nat (\<Sum>wid<1. credited (carried F wid))"
    unfolding F_def
    using actions_invariant [where c="?c" and A=Map.empty and n=1
        and acts="whole_iterations its @ [Generate 0 (Inr [7])]"] by blast
  then have "counter (shared F) = 0" using cr by (simp add: credited_def)
  then have "returned F ! 0 = 10000 \<and> unat (counter (shared F)) = 0
      \<and> unat (counter (shared F)) \<noteq> 10000 * (10000 div 10000)
      \<and> 1 * 9999 < returned F ! 0 - unat (counter (shared F))"
    using rF by simp
  then show ?thesis unfolding F_def its_def .
qed

text \<open>
  Claim C2, amended. Of the \<open>k\<close> successful generator calls a worker has completed
  it has taken \<open>carried\<close> through the batch check: all \<open>k\<close> at the top of its
  loop, and \<open>k - 1\<close> while the key of the \<open>k\<close>-th call is still to be counted.
  At every point of every interleaving of the workers the shared counter is the sum of
  \<open>10000 * (carried div 10000)\<close> over the workers, and the private counter of a worker
  is \<open>carried mod 10000\<close>: no partial batch is added. So, in a run of fewer than
  \<open>2\<^sup>6\<^sup>4\<close> generated keys (the range of the \<^verbatim>\<open>uint64\<close> counter), the
  counter never decreases as the run goes on; it is at most the number of completed
  calls and short of it by at most 10000 for each worker, and by at most 9999 for each
  worker when no worker holds an uncounted key. The worker has no statement that adds
  its last, partial batch to the counter; what such a flush would add is the private
  counter, and when each of \<open>n\<close> workers has completed \<open>V\<close> calls and counted
  them, the counter and the private counters together are \<open>n * V\<close>.
\<close>

theorem counter_lags_by_at_most_a_batch:
  fixes c :: crypto and A :: "string \<rightharpoonup> bool" and acts later :: "action list"
    and n :: nat
  defines "f \<equiv> run_actions c A acts (init_workers n)"
    and "g \<equiv> run_actions c A (acts @ later) (init_workers n)"
  shows "counter (shared f) = of_nat (\<Sum>wid<n. 10000 * (carried f wid div 10000))
     \<and> (\<forall>wid<n. unat (localCounter (shared f) ! wid) = carried f wid mod 10000)
     \<and> (total_returned n g < 2 ^ 64 \<longrightarrow>
          unat (counter (shared f)) \<le> unat (counter (shared g))
          \<and> unat (counter (shared f)) \<le> total_returned n f
          \<and> total_returned n f - unat (counter (shared f)) \<le> n * 10000
          \<and> ((\<forall>wid<n. pending f ! wid = None) \<longrightarrow>
               total_returned n f - unat (counter (shared f)) \<le> n * 9999)
          \<and> ((\<forall>wid<n. pending f ! wid = None \<and> returned f ! wid = V) \<longrightarrow>
               unat (counter (shared f)) + (\<Sum>wid<n. unat (localCounter (shared f) ! wid))
                 = n * V))"
proof -
  have inv: "(\<forall>wid<n. (pending f ! wid \<noteq> None \<longrightarrow> 0 < returned f ! wid)
            \<and> unat (localCounter (shared f) ! wid) = carried f wid mod 10000)
       \<and> counter (shared f) = of_nat (\<Sum>wid<n. credited (carried f wid))"
    unfolding f_def by (rule actions_invariant)
  have a: "counter (shared f) = of_nat (\<Sum>wid<n. 10000 * (carried f wid div 10000))"
    using inv unfolding credited_def by blast
  have b: "\<forall>wid<n. unat (localCounter (shared f) ! wid) = carried f wid mod 10000"
    using inv by simp
  have sh: "shaped n f"
    unfolding f_def by (rule run_actions_shaped) (rule init_workers_shaped)
  have g: "g = run_actions c A later f"
    unfolding f_def g_def by (rule run_actions_append)
  have r: "unat (counter (shared f)) \<le> unat (counter (shared g))
          \<and> unat (counter (shared f)) \<le> total_returned n f
          \<and> total_returned n f - unat (counter (shared f)) \<le> n * 10000
          \<and> ((\<forall>wid<n. pending f ! wid = None) \<longrightarrow>
               total_returned n f - unat (counter (shared f)) \<le> n * 9999)
          \<and> ((\<forall>wid<n. pending f ! wid = None \<and> returned f ! wid = V) \<longrightarrow>
               unat (counter (shared f)) + (\<Sum>wid<n. unat (localCounter (shared f) ! wid))
                 = n * V)"
    if range: "total_returned n g < 2 ^ 64"
  proof -
    have tm: "total_returned n f \<le> total_returned n g"
      unfolding total_returned_def g
      by (rule sum_mono) (use run_actions_mono [OF sh] in simp)
    have rf: "total_returned n f < 2 ^ 64" using tm range by linarith
    have uf: "unat (counter (shared f)) = (\<Sum>wid<n. credited (carried f wid))"
      using rf unfolding f_def by (rule unat_counter_actions)
    have ug: "unat (counter (shared g)) = (\<Sum>wid<n. credited (carried g wid))"
      using range unfolding g_def by (rule unat_counter_actions)
    have "(\<Sum>wid<n. credited (carried f wid)) \<le> (\<Sum>wid<n. credited (carried g wid))"
      unfolding g
      by (rule sum_mono) (use run_actions_mono [OF sh] in \<open>simp add: credited_mono\<close>)
    then have m: "unat (counter (shared f)) \<le> unat (counter (shared g))"
      using uf ug by linarith
    have le: "unat (counter (shared f)) \<le> total_returned n f"
      unfolding uf by (rule credited_carried_le)
    have gap: "total_returned n f - unat (counter (shared f)) \<le> n * 10000"
      unfolding uf using total_gap [of n f] by linarith
    have gap': "total_returned n f - unat (counter (shared f)) \<le> n * 9999"
      if "\<forall>wid<n. pending f ! wid = None"
      unfolding uf using total_gap_idle [OF that] by linarith
    have fin: "unat (counter (shared f)) + (\<Sum>wid<n. unat (localCounter (shared f) ! wid))
                 = n * V"
      if all: "\<forall>wid<n. pending f ! wid = None \<and> returned f ! wid = V"
    proof -
      have cv: "\<And>wid. wid < n \<Longrightarrow> carried f wid = V"
        using all by (simp add: carried_def)
      have s1: "(\<Sum>wid<n. credited (carried f wid)) = n * credited V"
        using cv by simp
      have s2: "(\<Sum>wid<n. unat (localCounter (shared f) ! wid)) = n * (V mod 10000)"
        using cv b by simp
      have "n * credited V + n * (V mod 10000) = n * (credited V + V mod 10000)"
        by (simp add: distrib_left)
      then show ?thesis
        unfolding uf s1 s2 by (simp add: credited_plus_mod)
    qed
    from m le gap gap' fin show ?thesis by blast
  qed
  from a b r show ?thesis by blast
qed

text \<open>
  One worker that runs 10000 iterations without a failure: the batch check of the last
  one adds the batch, the counter is 10000 and the private counter is back at 0.
\<close>

theorem counter_lags_by_at_most_a_batch_witness:
  "unat (counter (shared (run_actions
      \<lparr>SerializeCompressed = id, Hash160 = id, Sum256 = id, base58_Encode = (\<lambda>b. ''1'')\<rparr>
      Map.empty (whole_iterations (replicate 10000 (0, Inr [7]))) (init_workers 1)))) = 10000
   \<and> unat (localCounter (shared (run_actions
      \<lparr>SerializeCompressed = id, Hash160 = id, Sum256 = id, base58_Encode = (\<lambda>b. ''1'')\<rparr>
      Map.empty (whole_iterations (replicate 10000 (0, Inr [7]))) (init_workers 1))) ! 0) = 0"
proof -
  let ?c = "\<lparr>SerializeCompressed = id, Hash160 = id, Sum256 = id,
             base58_Encode = (\<lambda>b. ''1'')\<rparr>"
  define its :: "iteration list" where "its = replicate 10000 (0, Inr [7])"
  define F where "F = run_actions ?c Map.empty (whole_iterations its) (init_workers 1)"
  have s: "successes 0 its = 10000"
    unfolding its_def by (rule successes_replicate)
  have wr: "pending F = replicate 1 None \<and> (\<forall>wid<1. returned F ! wid = successes wid its)"
    unfolding F_def
    using whole_iterations_run [where c="?c" and A=Map.empty and its=its and n=1] by blast
  have p: "pending F ! 0 = None" using wr by simp
  have r: "returned F ! 0 = 10000" using wr s by simp
  have t: "total_returned 1 F = 10000" using r by (simp add: total_returned_def)
  have F': "run_actions ?c Map.empty (whole_iterations its @ []) (init_workers 1) = F"
    unfolding F_def by simp
  note inst = counter_lags_by_at_most_a_batch [where c="?c" and A=Map.empty
      and acts="whole_iterations its" and later="[]" and n=1 and V=10000,
      unfolded F', folded F_def]
  have h: "total_returned 1 F < 2 ^ 64" using t by simp
  have all: "\<forall>wid<1. pending F ! wid = None \<and> returned F ! wid = 10000"
    using p r by simp
  have c0: "carried F 0 = 10000" using p r by (simp add: carried_def)
  from inst have l: "\<forall>wid<1. unat (localCounter (shared F) ! wid) = carried F wid mod 10000"
    by (rule conjunct2 [THEN conjunct1])
  have l0: "unat (localCounter (shared F) ! 0) = 0" using l c0 by simp
  from inst have "total_returned 1 F < 2 ^ 64 \<longrightarrow>
      ((\<forall>wid<1. pending F ! wid = None \<and> returned F ! wid = 10000) \<longrightarrow>
         unat (counter (shared F)) + (\<Sum>wid<1. unat (localCounter (shared F) ! wid))
           = 1 * 10000)"
    by blast
  with h all have "unat (counter (shared F)) + (\<Sum>wid<1. unat (localCounter (shared F) ! wid))
           = 1 * 10000" by blast
  then have c: "unat (counter (shared F)) = 10000" using l0 by simp
  from c l0 have "unat (counter (shared F)) = 10000
     \<and> unat (localCounter (shared F) ! 0) = 0" by simp
  then show ?thesis unfolding F_def its_def .
qed


section \<open>The match writer\<close>

lemma hex_index_hi: "unat (drop_bit 4 (v::byte)) < 16"
proof -
  have "unat v < 2 ^ 8" using unsigned_less [of v] by simp
  then have "unat v div 2 ^ 4 < 16" by simp
  then show ?thesis by (simp add: drop_bit_eq_div unat_div)
qed

lemma hex_index_lo: "unat ((v::byte) AND 0x0f) < 16"
proof -
  have "unat (v AND 15) \<le> unat (15 :: byte)"
    by (rule word_and_le1 [THEN word_le_nat_alt [THEN iffD1]])
  then show ?thesis by simp
qed

lemma hex_byte_set: "set (hex_byte v) \<subseteq> set hextable"
proof -
  have l: "length hextable = 16" by (simp add: hextable_def)
  have "hextable ! unat (drop_bit 4 v) \<in> set hextable"
    by (rule nth_mem) (simp add: l hex_index_hi)
  moreover have "hextable ! unat (v AND 0x0f) \<in> set hextable"
    by (rule nth_mem) (simp add: l hex_index_lo)
  ultimately show ?thesis by (simp add: hex_byte_def)
qed

lemma hex_EncodeToString_set: "set (hex_EncodeToString src) \<subseteq> set hextable"
  using hex_byte_set by (auto simp: hex_EncodeToString_def)

lemma hex_EncodeToString_length: "length (hex_EncodeToString src) = 2 * length src"
  by (induction src) (simp_all add: hex_EncodeToString_def hex_byte_def)

lemma newline_not_hex: "CHR 0x0A \<notin> set (hex_EncodeToString src)"
proof -
  have "CHR 0x0A \<notin> set hextable" by (simp add: hextable_def)
  then show ?thesis using hex_EncodeToString_set by blast
qed

lemma match_line_one_newline:
  assumes "CHR 0x0A \<notin> set (address m)"
  shows "count_list (match_line m) (CHR 0x0A) = 1"
  using assms newline_not_hex [of "privateKey m"]
  by (simp add: match_line_def)

lemma match_line_last: "last (match_line m) = CHR 0x0A"
  by (simp add: match_line_def)

lemma write_match_ok:
  assumes "rec_write r = IoOk" and "rec_flush r = IoOk"
  shows "write_match r w =
     w\<lparr>file_content := file_content w @ buffered w @ match_line (rec_match r),
       buffered := [],
       wprinted := wprinted w @
         [SavedToFile (hex_EncodeToString (privateKey (rec_match r))) (address (rec_match r))]\<rparr>"
  using assms
  by (simp add: write_match_def writer_WriteString_def writer_Flush_def Let_def)

lemma writer_loop_Nil: "writer_loop [] w = w"
  by (simp add: writer_loop_def)

lemma writer_loop_Cons: "writer_loop (r # rs) w = writer_loop rs (write_match r w)"
  by (simp add: writer_loop_def)

lemma writer_loop_snoc: "writer_loop (rs @ [r]) w = write_match r (writer_loop rs w)"
  by (simp add: writer_loop_def)

lemma writer_loop_ok:
  assumes "\<forall>r \<in> set rs. rec_write r = IoOk \<and> rec_flush r = IoOk"
    and "buffered w = []"
  shows "file_content (writer_loop rs w) =
           file_content w @ concat (map (\<lambda>r. match_line (rec_match r)) rs)
         \<and> buffered (writer_loop rs w) = []
         \<and> wlogged (writer_loop rs w) = wlogged w"
  using assms
proof (induction rs arbitrary: w)
  case Nil
  then show ?case by (simp add: writer_loop_Nil)
next
  case (Cons r rs)
  have ok: "rec_write r = IoOk" "rec_flush r = IoOk" using Cons.prems(1) by simp_all
  let ?w = "write_match r w"
  have b: "buffered ?w = []" by (simp add: write_match_ok [OF ok])
  have f: "file_content ?w = file_content w @ match_line (rec_match r)"
    using Cons.prems(2) by (simp add: write_match_ok [OF ok])
  have l: "wlogged ?w = wlogged w" by (simp add: write_match_ok [OF ok])
  have rest: "\<forall>r \<in> set rs. rec_write r = IoOk \<and> rec_flush r = IoOk"
    using Cons.prems(1) by simp
  from Cons.IH [OF rest b] show ?case
    by (simp add: writer_loop_Cons f l)
qed

text \<open>Whatever the library answers, the file only grows at its end.\<close>

lemma write_match_file_grows:
  "\<exists>added. file_content (write_match r w) = file_content w @ added"
  by (cases "rec_write r"; cases "rec_flush r")
     (simp_all add: write_match_def writer_WriteString_def writer_Flush_def Let_def
        split: option.splits)

lemma writer_loop_file_grows:
  "\<exists>added. file_content (writer_loop rs w) = file_content w @ added"
proof (induction rs rule: rev_induct)
  case Nil
  show ?case by (simp add: writer_loop_Nil)
next
  case (snoc r rs)
  then obtain a where a: "file_content (writer_loop rs w) = file_content w @ a" by blast
  obtain b where "file_content (write_match r (writer_loop rs w)) =
      file_content (writer_loop rs w) @ b"
    using write_match_file_grows by blast
  with a show ?case by (simp add: writer_loop_snoc)
qed

lemma write_match_logged:
  "wlogged (write_match r w) =
     wlogged w @ (case rec_write r of IoOk \<Rightarrow> [] | IoErr n e \<Rightarrow> [WriteFailed e])"
  by (cases "rec_write r"; cases "rec_flush r")
     (simp_all add: write_match_def writer_WriteString_def writer_Flush_def Let_def)

section \<open>Writing the matches\<close>

lemma writer_Flush_empty:
  "buffered w = [] \<Longrightarrow> fst (writer_Flush final w) = w"
  by (cases final) (simp_all add: writer_Flush_def)

lemma writer_Flush_file_grows:
  "\<exists>added. file_content (fst (writer_Flush final w)) = file_content w @ added"
  by (cases final) (simp_all add: writer_Flush_def)

lemma take_all_ok:
  "\<forall>r \<in> set rs. rec_write r = IoOk \<and> rec_flush r = IoOk \<Longrightarrow>
   \<forall>r \<in> set (take k rs). rec_write r = IoOk \<and> rec_flush r = IoOk"
  by (meson in_set_takeD)

text \<open>
  Claim C4. When the library calls succeed, the writer adds to the destination, for
  every record it takes from the channel and in that order, the line made of the
  hexadecimal encoding of the key bytes, a colon, the address and a newline, and
  nothing stays in the writer's buffer after any record: after the first \<open>k\<close>
  records the destination holds the lines of exactly these \<open>k\<close>. The encoding
  has two characters of \<open>0123456789abcdef\<close> for each byte, so a line whose
  address has no newline in it has exactly one, at its end. The file is opened once, to
  be appended to: whatever the library calls answer, the content it had stays at the
  front of the file.
\<close>

theorem matchWriter_appends_one_line_per_record:
  assumes "\<forall>r \<in> set rs. rec_write r = IoOk \<and> rec_flush r = IoOk"
  shows "(\<exists>w. matchWriter (Inr existing) rs final = WriterReturned w
            \<and> file_content w = existing @ concat (map (\<lambda>r. match_line (rec_match r)) rs)
            \<and> buffered w = [] \<and> wlogged w = [])
     \<and> (\<forall>k \<le> length rs.
            file_content (writer_loop (take k rs)
              \<lparr>file_content = existing, buffered = [], wlogged = [], wprinted = []\<rparr>)
              = existing @ concat (map (\<lambda>r. match_line (rec_match r)) (take k rs))
          \<and> buffered (writer_loop (take k rs)
              \<lparr>file_content = existing, buffered = [], wlogged = [], wprinted = []\<rparr>) = [])
     \<and> match_line m = hex_EncodeToString (privateKey m) @ '':'' @ address m @ [CHR 0x0A]
     \<and> length (hex_EncodeToString (privateKey m)) = 2 * length (privateKey m)
     \<and> set (hex_EncodeToString (privateKey m)) \<subseteq> set ''0123456789abcdef''
     \<and> (CHR 0x0A \<notin> set (address m) \<longrightarrow> count_list (match_line m) (CHR 0x0A) = 1)
     \<and> (\<exists>w added. matchWriter (Inr existing) others final = WriterReturned w
            \<and> file_content w = existing @ added)"
proof -
  let ?w0 = "\<lparr>file_content = existing, buffered = [], wlogged = [], wprinted = []\<rparr>"
  let ?line = "\<lambda>r. match_line (rec_match r)"
  have b0: "buffered ?w0 = []" by simp
  have loop: "file_content (writer_loop rs' ?w0) = existing @ concat (map ?line rs')
      \<and> buffered (writer_loop rs' ?w0) = [] \<and> wlogged (writer_loop rs' ?w0) = []"
    if "\<forall>r \<in> set rs'. rec_write r = IoOk \<and> rec_flush r = IoOk" for rs'
    using writer_loop_ok [OF that b0] by simp
  have whole: "\<exists>w. matchWriter (Inr existing) rs final = WriterReturned w
            \<and> file_content w = existing @ concat (map ?line rs)
            \<and> buffered w = [] \<and> wlogged w = []"
    using loop [OF assms] by (simp add: matchWriter_def Let_def writer_Flush_empty)
  have pre: "\<forall>k \<le> length rs.
            file_content (writer_loop (take k rs) ?w0) = existing @ concat (map ?line (take k rs))
          \<and> buffered (writer_loop (take k rs) ?w0) = []"
    using loop [OF take_all_ok [OF assms]] by simp
  have fmt: "match_line m = hex_EncodeToString (privateKey m) @ '':'' @ address m @ [CHR 0x0A]"
    by (simp add: match_line_def)
  have hx: "set (hex_EncodeToString (privateKey m)) \<subseteq> set ''0123456789abcdef''"
    using hex_EncodeToString_set [of "privateKey m"] by (simp add: hextable_def)
  obtain a where a: "file_content (writer_loop others ?w0) = file_content ?w0 @ a"
    using writer_loop_file_grows by blast
  obtain b where b: "file_content (fst (writer_Flush final (writer_loop others ?w0))) =
      file_content (writer_loop others ?w0) @ b"
    using writer_Flush_file_grows by blast
  have kept: "\<exists>w added. matchWriter (Inr existing) others final = WriterReturned w
            \<and> file_content w = existing @ added"
    using a b by (simp add: matchWriter_def Let_def)
  from whole pre fmt hx hex_EncodeToString_length [of "privateKey m"]
    match_line_one_newline [of m] kept
  show ?thesis by blast
qed

text \<open>
  A file that holds one line and a match with the key bytes \<open>de ad be ef\<close> for the
  address \<open>TARGET123\<close>.
\<close>

theorem matchWriter_appends_one_line_per_record_witness:
  "matchWriter (Inr ''old:line\<newline>'')
     [\<lparr>rec_match = \<lparr>privateKey = [0xde, 0xad, 0xbe, 0xef], address = ''TARGET123''\<rparr>,
       rec_write = IoOk, rec_flush = IoOk\<rparr>] IoOk
   = WriterReturned
       \<lparr>file_content = ''old:line\<newline>deadbeef:TARGET123\<newline>'', buffered = [], wlogged = [],
        wprinted = [SavedToFile ''deadbeef'' ''TARGET123'']\<rparr>
   \<and> count_list (match_line \<lparr>privateKey = [0xde, 0xad, 0xbe, 0xef], address = ''TARGET123''\<rparr>)
        (CHR 0x0A) = 1"
proof -
  let ?m = "\<lparr>privateKey = [0xde, 0xad, 0xbe, 0xef], address = ''TARGET123''\<rparr>"
  let ?rs = "[\<lparr>rec_match = ?m, rec_write = IoOk, rec_flush = IoOk\<rparr>]"
  have ok: "\<forall>r \<in> set ?rs. rec_write r = IoOk \<and> rec_flush r = IoOk" by simp
  have nl: "CHR 0x0A \<notin> set (address ?m)" by simp
  have hexd: "hex_EncodeToString [0xde, 0xad, 0xbe, 0xef] = ''deadbeef''"
    by (simp add: hex_EncodeToString_def hex_byte_def hextable_def drop_bit_eq_div)
  have ev: "matchWriter (Inr ''old:line\<newline>'') ?rs IoOk = WriterReturned
       \<lparr>file_content = ''old:line\<newline>deadbeef:TARGET123\<newline>'', buffered = [], wlogged = [],
        wprinted = [SavedToFile ''deadbeef'' ''TARGET123'']\<rparr>"
    by (simp add: matchWriter_def writer_loop_def write_match_def
        writer_WriteString_def writer_Flush_def Let_def match_line_def hexd)
  from matchWriter_appends_one_line_per_record [OF ok, of "''old:line\<newline>''" IoOk ?m "[]"] nl
  have c: "count_list (match_line ?m) (CHR 0x0A) = 1"
    by blast
  from ev c show ?thesis by simp
qed

text \<open>
  Failing calls. The error of \<^verbatim>\<open>WriteString\<close> is logged and the loop goes
  on with the next record; the process is not ended and the write is not tried again.
  The result of \<^verbatim>\<open>writer.Flush()\<close> is not looked at: whatever it is, the
  log gets the line of a failed \<^verbatim>\<open>WriteString\<close> or nothing.
\<close>

lemma write_failure_logged_and_loop_goes_on:
  "wlogged (write_match r w) =
     wlogged w @ (case rec_write r of IoOk \<Rightarrow> [] | IoErr n e \<Rightarrow> [WriteFailed e])
   \<and> writer_loop (r # rs) w = writer_loop rs (write_match r w)
   \<and> (\<exists>w'. matchWriter (Inr existing) rs final = WriterReturned w')"
  by (simp add: write_match_logged writer_loop_Cons matchWriter_def Let_def)

text \<open>
  Claim C8 has the writer log every record whose write or flush fails. At a record
  whose flush fails after \<^verbatim>\<open>WriteString\<close> succeeded the code does not: the
  line stays in the buffer, nothing reaches the file, nothing is logged, and the console
  reports the record as saved.
\<close>

theorem flush_failure_not_logged:
  "write_match
     \<lparr>rec_match = \<lparr>privateKey = [0xde, 0xad, 0xbe, 0xef], address = ''TARGET123''\<rparr>,
      rec_write = IoOk, rec_flush = IoErr 0 ''no space left on device''\<rparr>
     \<lparr>file_content = [], buffered = [], wlogged = [], wprinted = []\<rparr>
   = \<lparr>file_content = [], buffered = ''deadbeef:TARGET123\<newline>'', wlogged = [],
      wprinted = [SavedToFile ''deadbeef'' ''TARGET123'']\<rparr>"
proof -
  have hexd: "hex_EncodeToString [0xde, 0xad, 0xbe, 0xef] = ''deadbeef''"
    by (simp add: hex_EncodeToString_def hex_byte_def hextable_def drop_bit_eq_div)
  show ?thesis
    by (simp add: write_match_def writer_WriteString_def writer_Flush_def Let_def
        match_line_def hexd)
qed

section \<open>Start-up\<close>

text \<open>
  Claim C6. With an argument count other than three the program prints the usage text
  and exits with code 1. With three arguments, it logs a fatal line and exits with code
  1 when \<^verbatim>\<open>strconv.Atoi\<close> rejects the worker count, when the count is below
  1, and when the membership list cannot be opened or read to its end; in none of
  these cases is a goroutine started. The writer logs a fatal line and ends the process
  with code 1 when the output file cannot be opened. The pipeline is started only when
  none of these happened.
\<close>

theorem startup_failures_are_fatal:
  "(length args \<noteq> 4 \<longrightarrow> main_startup env args = Exit 1 [Usage] [])
   \<and> (length args = 4 \<longrightarrow> Atoi env (args ! 1) = Inl e \<longrightarrow>
        main_startup env args = Exit 1 [] [FatalInvalidThreads e])
   \<and> (length args = 4 \<longrightarrow> Atoi env (args ! 1) = Inr k \<longrightarrow> k < 1 \<longrightarrow>
        main_startup env args = Exit 1 [] [FatalThreadsTooSmall])
   \<and> (length args = 4 \<longrightarrow> Atoi env (args ! 1) = Inr k \<longrightarrow> 1 \<le> k \<longrightarrow>
        (os_Open env (args ! 3) = Inl e
         \<or> (\<exists>f. os_Open env (args ! 3) = Inr f \<and> scan_err f = Some e)) \<longrightarrow>
        main_startup env args =
          Exit 1 [Banner (NumCPU env) k, Loading (args ! 3)] [FatalReadAddresses e])
   \<and> matchWriter (Inl e) rs final = WriterFatal 1 (FatalOpenOutput e)
   \<and> (\<forall>n out A con. main_startup env args = Started n out A con \<longrightarrow>
        length args = 4 \<and> Atoi env (args ! 1) = Inr n \<and> 1 \<le> n \<and> out = args ! 2
        \<and> readAddresses (os_Open env) (args ! 3) = Inr A)"
proof -
  have a: "length args \<noteq> 4 \<longrightarrow> main_startup env args = Exit 1 [Usage] []"
    by (simp add: main_startup_def)
  have b: "length args = 4 \<longrightarrow> Atoi env (args ! 1) = Inl e \<longrightarrow>
        main_startup env args = Exit 1 [] [FatalInvalidThreads e]"
    by (simp add: main_startup_def)
  have c: "length args = 4 \<longrightarrow> Atoi env (args ! 1) = Inr k \<longrightarrow> k < 1 \<longrightarrow>
        main_startup env args = Exit 1 [] [FatalThreadsTooSmall]"
    by (simp add: main_startup_def)
  have r: "readAddresses (os_Open env) (args ! 3) = Inl e"
    if "os_Open env (args ! 3) = Inl e
         \<or> (\<exists>f. os_Open env (args ! 3) = Inr f \<and> scan_err f = Some e)"
    using that by (auto simp: readAddresses_def Let_def)
  have d: "length args = 4 \<longrightarrow> Atoi env (args ! 1) = Inr k \<longrightarrow> 1 \<le> k \<longrightarrow>
        (os_Open env (args ! 3) = Inl e
         \<or> (\<exists>f. os_Open env (args ! 3) = Inr f \<and> scan_err f = Some e)) \<longrightarrow>
        main_startup env args =
          Exit 1 [Banner (NumCPU env) k, Loading (args ! 3)] [FatalReadAddresses e]"
    using r by (simp add: main_startup_def Let_def)
  have w: "matchWriter (Inl e) rs final = WriterFatal 1 (FatalOpenOutput e)"
    by (simp add: matchWriter_def)
  have s: "\<forall>n out A con. main_startup env args = Started n out A con \<longrightarrow>
        length args = 4 \<and> Atoi env (args ! 1) = Inr n \<and> 1 \<le> n \<and> out = args ! 2
        \<and> readAddresses (os_Open env) (args ! 3) = Inr A"
    by (auto simp: main_startup_def Let_def split: if_splits sum.splits)
  from a b c d w s show ?thesis by blast
qed

text \<open>
  Two arguments; a worker count that is no number; the count 0; a membership list that
  does not exist; an output file that cannot be opened.
\<close>

theorem startup_failures_are_fatal_witness:
  "main_startup
     \<lparr>Atoi = (\<lambda>s. if s = ''8'' then Inr 8 else if s = ''0'' then Inr 0
                    else Inl ''invalid syntax''),
      os_Open = (\<lambda>p. Inl ''no such file or directory''), NumCPU = 4\<rparr>
     [''prog'', ''invalid'', ''args''] = Exit 1 [Usage] []
   \<and> main_startup
     \<lparr>Atoi = (\<lambda>s. if s = ''8'' then Inr 8 else if s = ''0'' then Inr 0
                    else Inl ''invalid syntax''),
      os_Open = (\<lambda>p. Inl ''no such file or directory''), NumCPU = 4\<rparr>
     [''prog'', ''many'', ''out.txt'', ''addresses.txt'']
       = Exit 1 [] [FatalInvalidThreads ''invalid syntax'']
   \<and> main_startup
     \<lparr>Atoi = (\<lambda>s. if s = ''8'' then Inr 8 else if s = ''0'' then Inr 0
                    else Inl ''invalid syntax''),
      os_Open = (\<lambda>p. Inl ''no such file or directory''), NumCPU = 4\<rparr>
     [''prog'', ''0'', ''out.txt'', ''addresses.txt'']
       = Exit 1 [] [FatalThreadsTooSmall]
   \<and> main_startup
     \<lparr>Atoi = (\<lambda>s. if s = ''8'' then Inr 8 else if s = ''0'' then Inr 0
                    else Inl ''invalid syntax''),
      os_Open = (\<lambda>p. Inl ''no such file or directory''), NumCPU = 4\<rparr>
     [''prog'', ''8'', ''out.txt'', ''addresses.txt'']
       = Exit 1 [Banner 4 8, Loading ''addresses.txt'']
           [FatalReadAddresses ''no such file or directory'']
   \<and> matchWriter (Inl ''permission denied'') [] IoOk =
       WriterFatal 1 (FatalOpenOutput ''permission denied'')"
proof -
  let ?env = "\<lparr>Atoi = (\<lambda>s. if s = ''8'' then Inr 8 else if s = ''0'' then Inr 0
                    else Inl ''invalid syntax''),
      os_Open = (\<lambda>p. Inl ''no such file or directory''), NumCPU = 4\<rparr>"
  have a: "main_startup ?env [''prog'', ''invalid'', ''args''] = Exit 1 [Usage] []"
    using startup_failures_are_fatal
      [of "[''prog'', ''invalid'', ''args'']" ?env "''x''" 0 "[]" IoOk]
    by simp
  have b: "main_startup ?env [''prog'', ''many'', ''out.txt'', ''addresses.txt'']
       = Exit 1 [] [FatalInvalidThreads ''invalid syntax'']"
    using startup_failures_are_fatal
      [of "[''prog'', ''many'', ''out.txt'', ''addresses.txt'']" ?env "''invalid syntax''" 0
          "[]" IoOk]
    by simp
  have c: "main_startup ?env [''prog'', ''0'', ''out.txt'', ''addresses.txt'']
       = Exit 1 [] [FatalThreadsTooSmall]"
    using startup_failures_are_fatal
      [of "[''prog'', ''0'', ''out.txt'', ''addresses.txt'']" ?env "''x''" 0 "[]" IoOk]
    by simp
  have d: "main_startup ?env [''prog'', ''8'', ''out.txt'', ''addresses.txt'']
       = Exit 1 [Banner 4 8, Loading ''addresses.txt'']
           [FatalReadAddresses ''no such file or directory'']"
    using startup_failures_are_fatal
      [of "[''prog'', ''8'', ''out.txt'', ''addresses.txt'']" ?env
          "''no such file or directory''" 8 "[]" IoOk]
    by simp
  have e: "matchWriter (Inl ''permission denied'') [] IoOk =
       WriterFatal 1 (FatalOpenOutput ''permission denied'')"
    using startup_failures_are_fatal [of "[]" ?env "''permission denied''" 0 "[]" IoOk]
    by simp
  from a b c d e show ?thesis by blast
qed

section \<open>The statistics\<close>




lemma stats_loop_Cons:
  "stats_loop L start (t # ts) st =
     fst (stats_tick L start t st) # stats_loop L start ts (snd (stats_tick L start t st))"
  by (simp split: prod.splits)

lemma stats_loop_length: "length (stats_loop L start ts st) = length ts"
  by (induction ts arbitrary: st) (simp_all add: stats_loop_Cons del: stats_loop.simps(2))








end
